theory Spec2Isabelle
  imports Main "HOL-Library.AList"
begin

section \<open>Element trees\<close>

text \<open>
  The custom element classes of \<^verbatim>\<open>pptx/oxml/autoshape.py\<close> work on lxml element trees.
  An element is its tag, its attributes in document order and its child elements in
  document order. Tags are written in their prefixed form (\<^verbatim>\<open>a:\<close> for the drawing
  namespace, \<^verbatim>\<open>p:\<close> for the presentation namespace); namespace declarations are not
  attributes in lxml and are left out. Text and tail strings play no part in the functions
  modelled here (the templates are parsed with blank text removed) and are not modelled.
\<close>

datatype xml = Elem (tag: string) (attrib: "(string \<times> string) list") (children: "xml list")

text \<open>
  Python holds references to elements and mutates the tree through them. Here the tree is
  passed explicitly, and a reference to one of its elements is the path from the root:
  the positions of the children to descend into. The empty path is the root itself.
\<close>

type_synonym ref = "nat list"

datatype error = AttributeError

fun node_at :: "xml \<Rightarrow> ref \<Rightarrow> xml option" where
  "node_at e [] = Some e"
| "node_at e (i # p) =
     (if i < length (children e) then node_at (children e ! i) p else None)"

fun update_at :: "ref \<Rightarrow> (xml \<Rightarrow> xml) \<Rightarrow> xml \<Rightarrow> xml" where
  "update_at [] f e = f e"
| "update_at (i # p) f e =
     (if i < length (children e)
      then Elem (tag e) (attrib e) ((children e)[i := update_at p f (children e ! i)])
      else e)"

definition children_at :: "xml \<Rightarrow> ref \<Rightarrow> xml list" where
  "children_at root r = (case node_at root r of None \<Rightarrow> [] | Some e \<Rightarrow> children e)"

subsection \<open>The lxml operations the module uses\<close>

text \<open>Position of the first element of a child list that carries a tag.\<close>

fun first_tagged :: "string \<Rightarrow> xml list \<Rightarrow> nat option" where
  "first_tagged t [] = None"
| "first_tagged t (c # cs) =
     (if tag c = t then Some 0 else map_option Suc (first_tagged t cs))"

text \<open>\<^verbatim>\<open>parent.find(tag)\<close>: the first child with that tag, or \<^verbatim>\<open>None\<close>.\<close>

definition etree_find :: "xml \<Rightarrow> ref \<Rightarrow> string \<Rightarrow> ref option" where
  "etree_find root parent t =
     map_option (\<lambda>i. parent @ [i]) (first_tagged t (children_at root parent))"

text \<open>
  \<^verbatim>\<open>parent.name\<close> and \<^verbatim>\<open>parent[name]\<close> on an objectified element: the first child
  with that tag, \<^verbatim>\<open>AttributeError\<close> when there is none. objectify resolves an unqualified
  name in the namespace of the parent; the receivers in this module have fixed tags, so
  the model is given the resolved tag.
\<close>

definition objectify_getattr :: "xml \<Rightarrow> ref \<Rightarrow> string \<Rightarrow> error + ref" where
  "objectify_getattr root parent t =
     (case first_tagged t (children_at root parent) of
        None \<Rightarrow> Inl AttributeError
      | Some i \<Rightarrow> Inr (parent @ [i]))"

text \<open>A chain of such lookups, \<^verbatim>\<open>sp.nvSpPr.cNvSpPr\<close>: the first failure is raised.\<close>

fun objectify_path :: "xml \<Rightarrow> ref \<Rightarrow> string list \<Rightarrow> error + ref" where
  "objectify_path root r [] = Inr r"
| "objectify_path root r (t # ts) =
     (case objectify_getattr root r t of
        Inl e \<Rightarrow> Inl e
      | Inr r' \<Rightarrow> objectify_path root r' ts)"

text \<open>\<^verbatim>\<open>hasattr(parent, name)\<close>: whether the lookup succeeds.\<close>

definition objectify_hasattr :: "xml \<Rightarrow> ref \<Rightarrow> string \<Rightarrow> bool" where
  "objectify_hasattr root parent t =
     (case objectify_getattr root parent t of Inl _ \<Rightarrow> False | Inr _ \<Rightarrow> True)"

text \<open>Positions of all the elements of a child list that carry a tag, ascending.\<close>

fun tagged_positions :: "string \<Rightarrow> xml list \<Rightarrow> nat list" where
  "tagged_positions t [] = []"
| "tagged_positions t (c # cs) =
     (if tag c = t then [0] else []) @ map Suc (tagged_positions t cs)"

text \<open>
  \<^verbatim>\<open>parent.remove(child)\<close>: the child leaves the child list of its parent, and every
  later sibling moves one position down.
\<close>

definition etree_remove :: "xml \<Rightarrow> ref \<Rightarrow> xml" where
  "etree_remove root element =
     update_at (butlast element)
       (\<lambda>e. Elem (tag e) (attrib e)
              (take (last element) (children e) @ drop (Suc (last element)) (children e)))
       root"

text \<open>\<^verbatim>\<open>parent.append(new)\<close>: the new last child; the model returns its reference too.\<close>

definition etree_append :: "xml \<Rightarrow> ref \<Rightarrow> xml \<Rightarrow> ref \<times> xml" where
  "etree_append root parent new =
     (parent @ [length (children_at root parent)],
      update_at parent (\<lambda>e. Elem (tag e) (attrib e) (children e @ [new])) root)"

text \<open>
  \<^verbatim>\<open>successor.addprevious(new)\<close>: the new element takes the place of the successor
  among the children of its parent, and the successor and every later sibling move one
  position up. The reference returned is that of the new element.
\<close>

definition etree_addprevious :: "xml \<Rightarrow> ref \<Rightarrow> xml \<Rightarrow> ref \<times> xml" where
  "etree_addprevious root successor new =
     (successor,
      update_at (butlast successor)
        (\<lambda>e. Elem (tag e) (attrib e)
               (take (last successor) (children e) @ new # drop (last successor) (children e)))
        root)"

text \<open>\<^verbatim>\<open>elm.get(key)\<close> and \<^verbatim>\<open>elm.set(key, value)\<close> on the attributes.\<close>

definition etree_get :: "xml \<Rightarrow> ref \<Rightarrow> string \<Rightarrow> string option" where
  "etree_get root r k = (case node_at root r of None \<Rightarrow> None | Some e \<Rightarrow> map_of (attrib e) k)"

definition etree_set :: "xml \<Rightarrow> ref \<Rightarrow> string \<Rightarrow> string \<Rightarrow> xml" where
  "etree_set root r k v =
     update_at r (\<lambda>e. Elem (tag e) (AList.update k v (attrib e)) (children e)) root"

subsection \<open>Helpers of \<^verbatim>\<open>pptx.oxml\<close>\<close>

text \<open>
  Modelled from the spec: \<^verbatim>\<open>pptx.oxml.ns.qn\<close>, which is not among the sources, turns a
  prefixed tag into the qualified name lxml searches for. Tags are kept in the prefixed
  form of the spec (section 6: \<^verbatim>\<open>a:\<close> drawing, \<^verbatim>\<open>p:\<close> presentation), so the qualified
  name of a prefixed tag is the tag.
\<close>

definition qn :: "string \<Rightarrow> string" where
  "qn t = t"

text \<open>
  Modelled from the spec: \<^verbatim>\<open>pptx.oxml.core.Element\<close>, which is not among the sources,
  makes "a new, empty" element with the tag: no attribute, no child.
\<close>

definition Element :: "string \<Rightarrow> xml" where
  "Element t = Elem t [] []"

text \<open>
  Modelled from the spec: \<^verbatim>\<open>pptx.oxml.core.SubElement\<close>, which is not among the sources,
  makes a new, empty element with the tag as the last child of the parent.
\<close>

definition SubElement :: "xml \<Rightarrow> ref \<Rightarrow> string \<Rightarrow> ref \<times> xml" where
  "SubElement root parent t = etree_append root parent (Element t)"

text \<open>
  Modelled from the spec: \<^verbatim>\<open>pptx.oxml.core.child\<close>, which is not among the sources,
  gives the direct child of the element with the tag, or \<^verbatim>\<open>None\<close> when the element has
  no such child.
\<close>

definition child :: "xml \<Rightarrow> ref \<Rightarrow> string \<Rightarrow> ref option" where
  "child root parent t = etree_find root parent t"

section \<open>\<^verbatim>\<open>CT_ShapeProperties\<close>: the \<^verbatim>\<open>p:spPr\<close> element\<close>

text \<open>In this class \<open>self\<close> is the root of the tree that is passed around.\<close>

definition solidFill :: "xml \<Rightarrow> ref option" where
  "solidFill self = etree_find self [] (qn ''a:solidFill'')"

fun remove_if_present :: "xml \<Rightarrow> string list \<Rightarrow> xml" where
  "remove_if_present self [] = self"
| "remove_if_present self (tagname # tagnames) =
     (case etree_find self [] (qn tagname) of
        None \<Rightarrow> remove_if_present self tagnames
      | Some element \<Rightarrow> remove_if_present (etree_remove self element) tagnames)"

fun first_successor_in :: "xml \<Rightarrow> string list \<Rightarrow> ref option" where
  "first_successor_in self [] = None"
| "first_successor_in self (tagname # successor_tagnames) =
     (case etree_find self [] (qn tagname) of
        None \<Rightarrow> first_successor_in self successor_tagnames
      | Some successor \<Rightarrow> Some successor)"

definition add_solidFill :: "xml \<Rightarrow> ref \<times> xml" where
  "add_solidFill self =
     (let solidFill = Element ''a:solidFill'' in
      case first_successor_in self
             [''a:ln'', ''a:effectLst'', ''a:effectDag'', ''a:scene3d'', ''a:sp3d'', ''a:extLst''] of
        Some successor \<Rightarrow> etree_addprevious self successor solidFill
      | None \<Rightarrow> etree_append self [] solidFill)"

text \<open>
  The method returns the solid fill; the model returns the reference to it together with
  the tree as the call leaves it.
\<close>

definition get_or_change_to_solidFill :: "xml \<Rightarrow> ref \<times> xml" where
  "get_or_change_to_solidFill self =
     (case solidFill self of
        Some existing \<Rightarrow> (existing, self)
      | None \<Rightarrow>
          add_solidFill
            (remove_if_present self
               [''a:noFill'', ''a:gradFill'', ''a:blipFill'', ''a:pattFill'', ''a:grpFill'']))"

section \<open>\<^verbatim>\<open>CT_PresetGeometry2D\<close>: the \<^verbatim>\<open>a:prstGeom\<close> element\<close>

text \<open>
  \<^verbatim>\<open>'%d' % val\<close> and \<^verbatim>\<open>str(idx)\<close> on a Python integer: the decimal digits, most
  significant first, after a minus sign when the number is negative.
\<close>

definition digit_char :: "nat \<Rightarrow> char" where
  "digit_char d = ''0123456789'' ! d"

fun decimal :: "nat \<Rightarrow> string" where
  "decimal n = (if n < 10 then [digit_char n] else decimal (n div 10) @ [digit_char (n mod 10)])"

declare decimal.simps [simp del]

definition format_d :: "int \<Rightarrow> string" where
  "format_d val = (if val < 0 then CHR ''-'' # decimal (nat (- val)) else decimal (nat val))"

text \<open>
  Iterating or slicing an objectified child, \<^verbatim>\<open>for gd in avLst.gd\<close> and
  \<^verbatim>\<open>avLst.gd[:]\<close>: the references to every child of the parent with that tag, in
  document order.
\<close>

definition objectify_iter :: "xml \<Rightarrow> ref \<Rightarrow> string \<Rightarrow> ref list" where
  "objectify_iter root parent t =
     map (\<lambda>i. parent @ [i]) (tagged_positions t (children_at root parent))"

text \<open>
  The property \<^verbatim>\<open>gd\<close>. Both lookups of \<^verbatim>\<open>self.avLst.gd\<close> can raise
  \<^verbatim>\<open>AttributeError\<close>, which the property catches. It only reads the tree.
\<close>

definition gd :: "xml \<Rightarrow> ref list" where
  "gd self =
     (case objectify_path self [] [''a:avLst'', ''a:gd''] of
        Inl AttributeError \<Rightarrow> []
      | Inr first_gd \<Rightarrow> objectify_iter self (butlast first_gd) ''a:gd'')"

text \<open>
  The loop \<^verbatim>\<open>for gd_elm in self.avLst.gd[:]: avLst.remove(gd_elm)\<close> runs over a copy of
  the list of guides taken before the first removal. Each removal moves the later
  siblings one position down, and the guides still to be removed are later siblings, so
  their references follow.
\<close>

definition moved_down :: "ref \<Rightarrow> ref" where
  "moved_down r = butlast r @ [last r - 1]"

fun remove_each :: "xml \<Rightarrow> ref list \<Rightarrow> xml" where
  "remove_each root [] = root"
| "remove_each root (gd_elm # rest) = remove_each (etree_remove root gd_elm) (map moved_down rest)"

text \<open>The loop \<^verbatim>\<open>for name, val in guides\<close>.\<close>

fun add_guides :: "xml \<Rightarrow> ref \<Rightarrow> (string \<times> int) list \<Rightarrow> xml" where
  "add_guides root avLst [] = root"
| "add_guides root avLst ((name, val) # guides) =
     (let (gd, root1) = SubElement root avLst ''a:gd'';
          root2 = etree_set root1 gd ''name'' name;
          root3 = etree_set root2 gd ''fmla'' (''val '' @ format_d val)
      in add_guides root3 avLst guides)"

text \<open>
  \<^verbatim>\<open>rewrite_guides\<close> returns nothing; the model returns the tree as the call leaves it.
  The lookup \<^verbatim>\<open>self.avLst\<close> in the \<^verbatim>\<open>hasattr\<close> test and in the loop header is outside
  the \<^verbatim>\<open>try\<close>, so its \<^verbatim>\<open>AttributeError\<close> would be raised.
\<close>

definition rewrite_guides :: "xml \<Rightarrow> (string \<times> int) list \<Rightarrow> error + xml" where
  "rewrite_guides self guides =
     (let (avLst, self1) =
            (case objectify_getattr self [] ''a:avLst'' of
               Inr found \<Rightarrow> (found, self)
             | Inl AttributeError \<Rightarrow> SubElement self [] ''a:avLst'')
      in case objectify_getattr self1 [] ''a:avLst'' of
           Inl e \<Rightarrow> Inl e
         | Inr self_avLst \<Rightarrow>
             let self2 =
                   (if objectify_hasattr self1 self_avLst ''a:gd''
                    then remove_each self1 (objectify_iter self1 self_avLst ''a:gd'')
                    else self1)
             in Inr (add_guides self2 avLst guides))"

section \<open>\<^verbatim>\<open>CT_Shape\<close>: the \<^verbatim>\<open>p:sp\<close> element\<close>

text \<open>
  \<^verbatim>\<open>txBox in ('true', '1')\<close>, where \<^verbatim>\<open>txBox\<close> is the attribute value or \<^verbatim>\<open>None\<close>:
  equality with one of the two strings.
\<close>

definition is_autoshape :: "xml \<Rightarrow> error + bool" where
  "is_autoshape self =
     (case objectify_getattr self [] ''p:spPr'' of
        Inl e \<Rightarrow> Inl e
      | Inr spPr \<Rightarrow>
          (case child self spPr ''a:prstGeom'' of
             None \<Rightarrow> Inr False
           | Some prstGeom \<Rightarrow>
               (case objectify_path self [] [''p:nvSpPr'', ''p:cNvSpPr''] of
                  Inl e \<Rightarrow> Inl e
                | Inr cNvSpPr \<Rightarrow>
                    (let txBox = etree_get self cNvSpPr ''txBox'' in
                     if txBox \<in> set [Some ''true'', Some ''1''] then Inr False
                     else Inr True))))"

definition is_textbox :: "xml \<Rightarrow> error + bool" where
  "is_textbox self =
     (case objectify_path self [] [''p:nvSpPr'', ''p:cNvSpPr''] of
        Inl e \<Rightarrow> Inl e
      | Inr cNvSpPr \<Rightarrow>
          (let txBox = etree_get self cNvSpPr ''txBox'' in
           if txBox \<in> set [Some ''true'', Some ''1''] then Inr True
           else Inr False))"

definition prst :: "xml \<Rightarrow> error + string option" where
  "prst self =
     (case objectify_getattr self [] ''p:spPr'' of
        Inl e \<Rightarrow> Inl e
      | Inr spPr \<Rightarrow>
          (case child self spPr ''a:prstGeom'' of
             None \<Rightarrow> Inr None
           | Some prstGeom \<Rightarrow> Inr (etree_get self prstGeom ''prst'')))"

definition prstGeom :: "xml \<Rightarrow> error + ref option" where
  "prstGeom self =
     (case objectify_getattr self [] ''p:spPr'' of
        Inl e \<Rightarrow> Inl e
      | Inr spPr \<Rightarrow> Inr (child self spPr ''a:prstGeom''))"

subsection \<open>\<^verbatim>\<open>new_placeholder_sp\<close>\<close>

text \<open>
  The constants the module imports from \<^verbatim>\<open>pptx.spec\<close>, which is not among the sources.
  The functions take them as a parameter.
\<close>

record ph_spec =
  PH_ORIENT_HORZ :: string
  PH_SZ_FULL :: string
  PH_TYPE_BODY :: string
  PH_TYPE_CTRTITLE :: string
  PH_TYPE_OBJ :: string
  PH_TYPE_SUBTITLE :: string
  PH_TYPE_TITLE :: string

text \<open>
  Modelled from the spec: the values of the constants of \<^verbatim>\<open>pptx.spec\<close>, which is not
  among the sources, under the names the spec gives them: the types title,
  centered-title, subtitle, body and object, the orientation \<^verbatim>\<open>horz\<close> and the size
  \<^verbatim>\<open>full\<close>. Used where a concrete set of constants is needed.
\<close>

definition pptx_spec :: ph_spec where
  "pptx_spec =
     \<lparr>PH_ORIENT_HORZ = ''horz'', PH_SZ_FULL = ''full'', PH_TYPE_BODY = ''body'',
      PH_TYPE_CTRTITLE = ''centered-title'', PH_TYPE_OBJ = ''object'',
      PH_TYPE_SUBTITLE = ''subtitle'', PH_TYPE_TITLE = ''title''\<rparr>"

text \<open>
  The tree of the template \<^verbatim>\<open>_ph_sp_tmpl\<close> with an id and a name as the values of the
  two attributes of \<^verbatim>\<open>p:cNvPr\<close>: the identity block and an empty properties block.
\<close>

definition ph_sp_tmpl :: "int \<Rightarrow> string \<Rightarrow> xml" where
  "ph_sp_tmpl id' name =
     Elem ''p:sp'' []
       [Elem ''p:nvSpPr'' []
          [Elem ''p:cNvPr'' [(''id'', format_d id'), (''name'', name)] [],
           Elem ''p:cNvSpPr'' [] [],
           Elem ''p:nvPr'' [] []],
        Elem ''p:spPr'' [] []]"

text \<open>
  The exceptions \<^verbatim>\<open>new_placeholder_sp\<close> can raise: the parser's \<^verbatim>\<open>XMLSyntaxError\<close>,
  and an error of a lookup in the parsed tree.
\<close>

datatype builder_error = XMLSyntaxError | LookupFailed error

text \<open>
  The method formats the name into the template text as it is, with no escaping
  (\<^verbatim>\<open>name="%s"\<close>), and parses the text. A name of printable ASCII characters other than
  \<^verbatim>\<open><\<close>, \<^verbatim>\<open>&\<close> and the double quote is attribute text that stands for itself.
\<close>

definition plain_char :: "char \<Rightarrow> bool" where
  "plain_char ch \<longleftrightarrow>
     32 \<le> (of_char ch :: nat) \<and> (of_char ch :: nat) \<le> 126
     \<and> ch \<noteq> CHR ''<'' \<and> ch \<noteq> CHR ''&'' \<and> ch \<noteq> CHR 0x22"

definition plain_name :: "string \<Rightarrow> bool" where
  "plain_name name \<longleftrightarrow> list_all plain_char name"

text \<open>
  A name with no double quote stays inside the quotes of the template, and is not
  well-formed attribute text when it has a \<^verbatim>\<open><\<close>, or an \<^verbatim>\<open>&\<close> and no \<^verbatim>\<open>;\<close> to end the
  reference the \<^verbatim>\<open>&\<close> starts.
\<close>

definition malformed_name :: "string \<Rightarrow> bool" where
  "malformed_name name \<longleftrightarrow>
     CHR 0x22 \<notin> set name
     \<and> (CHR ''<'' \<in> set name \<or> (CHR ''&'' \<in> set name \<and> CHR '';'' \<notin> set name))"

text \<open>
  Modelled from the spec: \<^verbatim>\<open>parse_xml_bytes\<close> of \<^verbatim>\<open>pptx.oxml\<close> is not among the
  sources; it gives the text to the XML parser of lxml, with blank text removed. This is
  \<^verbatim>\<open>parse_xml_bytes(_ph_sp_tmpl % (id_, name))\<close>. For a plain name the text parses to the
  tree of the template with that name (spec, 4.3 and 6). For a malformed name the parser
  raises \<^verbatim>\<open>XMLSyntaxError\<close>. On every other name (a double quote that ends the attribute,
  a character reference, a tab or a line break, a byte outside printable ASCII) what the
  parser gives depends on the whole text, and is a parameter of the model.
\<close>

definition parse_ph_sp_tmpl ::
  "(int \<Rightarrow> string \<Rightarrow> builder_error + xml) \<Rightarrow> int \<Rightarrow> string \<Rightarrow> builder_error + xml" where
  "parse_ph_sp_tmpl parse_other id' name =
     (if plain_name name then Inr (ph_sp_tmpl id' name)
      else if malformed_name name then Inl XMLSyntaxError
      else parse_other id' name)"

text \<open>
  An instance of the parameter, for the examples: a parser that takes every other name as
  it stands. The examples have plain and malformed names, on which the parameter is not
  consulted.
\<close>

definition other_as_text :: "int \<Rightarrow> string \<Rightarrow> builder_error + xml" where
  "other_as_text id' name = Inr (ph_sp_tmpl id' name)"

text \<open>
  Modelled from the spec: \<^verbatim>\<open>CT_TextBody.new_txBody\<close> of \<^verbatim>\<open>pptx.oxml.text\<close> is not among
  the sources. It makes "an empty text body (one paragraph, no run)".
\<close>

definition new_txBody :: xml where
  "new_txBody = Elem ''p:txBody'' [] [Elem ''a:p'' [] []]"

text \<open>
  \<^verbatim>\<open>objectify.deannotate(sp, cleanup_namespaces=True)\<close> takes the type annotations of
  objectify, the attributes \<^verbatim>\<open>py:pytype\<close> and \<^verbatim>\<open>xsi:type\<close>, off every element.
\<close>

fun deannotate :: "xml \<Rightarrow> xml" where
  "deannotate (Elem t a cs) =
     Elem t (filter (\<lambda>kv. fst kv \<notin> set [''py:pytype'', ''xsi:type'']) a) (map deannotate cs)"

definition new_placeholder_sp ::
  "(int \<Rightarrow> string \<Rightarrow> builder_error + xml) \<Rightarrow> ph_spec \<Rightarrow>
     int \<Rightarrow> string \<Rightarrow> string \<Rightarrow> string \<Rightarrow> string \<Rightarrow> int \<Rightarrow> builder_error + xml" where
  "new_placeholder_sp parse_other c id' name ph_type orient sz idx =
     (case parse_ph_sp_tmpl parse_other id' name of
        Inl e \<Rightarrow> Inl e
      | Inr sp0 \<Rightarrow>
     (case objectify_path sp0 [] [''p:nvSpPr'', ''p:cNvSpPr''] of
        Inl e \<Rightarrow> Inl (LookupFailed e)
      | Inr cNvSpPr \<Rightarrow>
     (let sp1 = snd (SubElement sp0 cNvSpPr ''a:spLocks'') in
      case objectify_path sp1 [] [''p:nvSpPr'', ''p:cNvSpPr'', qn ''a:spLocks''] of
        Inl e \<Rightarrow> Inl (LookupFailed e)
      | Inr spLocks \<Rightarrow>
     (let sp2 = etree_set sp1 spLocks ''noGrp'' ''1'' in
      case objectify_path sp2 [] [''p:nvSpPr'', ''p:nvPr''] of
        Inl e \<Rightarrow> Inl (LookupFailed e)
      | Inr nvPr \<Rightarrow>
     (let (ph, sp3) = SubElement sp2 nvPr ''p:ph'';
          sp4 = (if ph_type \<noteq> PH_TYPE_OBJ c then etree_set sp3 ph ''type'' ph_type else sp3);
          sp5 = (if orient \<noteq> PH_ORIENT_HORZ c then etree_set sp4 ph ''orient'' orient else sp4);
          sp6 = (if sz \<noteq> PH_SZ_FULL c then etree_set sp5 ph ''sz'' sz else sp5);
          sp7 = (if idx \<noteq> 0 then etree_set sp6 ph ''idx'' (format_d idx) else sp6);
          placeholder_types_that_have_a_text_frame =
            [PH_TYPE_TITLE c, PH_TYPE_CTRTITLE c, PH_TYPE_SUBTITLE c, PH_TYPE_BODY c,
             PH_TYPE_OBJ c];
          sp8 = (if ph_type \<in> set placeholder_types_that_have_a_text_frame
                 then snd (etree_append sp7 [] new_txBody) else sp7)
      in Inr (deannotate sp8))))))"

section \<open>\<^verbatim>\<open>_LayoutPlaceholders\<close>: the placeholders of a layout\<close>

text \<open>
  Modelled from the spec: the class \<^verbatim>\<open>_LayoutPlaceholders\<close> of
  \<^verbatim>\<open>pptx.parts.slidelayout\<close> is not among the sources, only its tests are. The spec
  (sections 3 and 4.6): a placeholder collection is the sequence of the shape elements of
  a shape tree that carry a placeholder descriptor, in the order of the tree; the index
  of a descriptor is a non-negative integer and an absent index attribute counts as zero;
  \<^verbatim>\<open>get(index, default)\<close> scans the sequence produced by \<^verbatim>\<open>all()\<close> for the first
  placeholder whose resolved index equals the index and returns it, or the default if
  none matches.
\<close>

record placeholder_descriptor =
  type_attr :: "string option"
  idx_attr :: "nat option"

record shape_element =
  shape_name :: string
  descriptor :: "placeholder_descriptor option"

datatype ('p, 'd) lookup = Found 'p | Default 'd

definition ph_all :: "shape_element list \<Rightarrow> shape_element list" where
  "ph_all shape_tree = filter (\<lambda>s. descriptor s \<noteq> None) shape_tree"

definition resolved_idx :: "shape_element \<Rightarrow> nat" where
  "resolved_idx s =
     (case descriptor s of
        None \<Rightarrow> 0
      | Some d \<Rightarrow> (case idx_attr d of None \<Rightarrow> 0 | Some n \<Rightarrow> n))"

definition ph_get :: "shape_element list \<Rightarrow> nat \<Rightarrow> 'd \<Rightarrow> (shape_element, 'd) lookup" where
  "ph_get shape_tree index dflt =
     (case List.find (\<lambda>p. resolved_idx p = index) (ph_all shape_tree) of
        Some p \<Rightarrow> Found p
      | None \<Rightarrow> Default dflt)"

section \<open>Notions the properties are stated with\<close>

text \<open>
  A child list with the first element carrying a tag taken out: what one pass of
  \<^verbatim>\<open>_remove_if_present\<close> does for one tag.
\<close>

definition without_first :: "string \<Rightarrow> xml list \<Rightarrow> xml list" where
  "without_first t cs =
     takeWhile (\<lambda>c. tag c \<noteq> t) cs @ drop 1 (dropWhile (\<lambda>c. tag c \<noteq> t) cs)"

text \<open>The number of children carrying a tag.\<close>

definition occurrences :: "string \<Rightarrow> xml list \<Rightarrow> nat" where
  "occurrences t cs = length (filter (\<lambda>c. tag c = t) cs)"

text \<open>The tags the two methods name, and the six fill tags of the schema.\<close>

abbreviation other_fill_tags :: "string list" where
  "other_fill_tags \<equiv> [''a:noFill'', ''a:gradFill'', ''a:blipFill'', ''a:pattFill'', ''a:grpFill'']"

abbreviation successor_tags :: "string list" where
  "successor_tags \<equiv>
     [''a:ln'', ''a:effectLst'', ''a:effectDag'', ''a:scene3d'', ''a:sp3d'', ''a:extLst'']"

abbreviation fill_tags :: "string list" where
  "fill_tags \<equiv> [''a:noFill'', ''a:solidFill'', ''a:gradFill'', ''a:blipFill'', ''a:pattFill'', ''a:grpFill'']"

text \<open>The number of fill elements among the children of a properties element.\<close>

definition fill_count :: "xml \<Rightarrow> nat" where
  "fill_count self = length (filter (\<lambda>c. tag c \<in> set fill_tags) (children self))"

text \<open>The element a guide \<open>(name, value)\<close> is serialized to.\<close>

definition serialized_guide :: "string \<times> int \<Rightarrow> xml" where
  "serialized_guide g =
     Elem ''a:gd'' [(''name'', fst g), (''fmla'', ''val '' @ format_d (snd g))] []"

text \<open>
  What the removal loop does to a child list: the positions are taken out one after the
  other, each removal moving the remaining positions one down.
\<close>

fun remove_positions :: "nat list \<Rightarrow> 'a list \<Rightarrow> 'a list" where
  "remove_positions [] xs = xs"
| "remove_positions (j # js) xs =
     remove_positions (map (\<lambda>k. k - 1) js) (take j xs @ drop (Suc j) xs)"

text \<open>
  The placeholder shape of the spec (section 6):
  \<^verbatim>\<open>p:sp > { p:nvSpPr > (p:cNvPr, p:cNvSpPr > a:spLocks[noGrp=1], p:nvPr > p:ph), p:spPr, [p:txBody]? }\<close>,
  with the attributes of the \<^verbatim>\<open>p:ph\<close> element and the text bodies after the properties
  block as parameters.
\<close>

definition placeholder_shape :: "int \<Rightarrow> string \<Rightarrow> (string \<times> string) list \<Rightarrow> xml list \<Rightarrow> xml" where
  "placeholder_shape id' name ph_attrib bodies =
     Elem ''p:sp'' []
       ([Elem ''p:nvSpPr'' []
           [Elem ''p:cNvPr'' [(''id'', format_d id'), (''name'', name)] [],
            Elem ''p:cNvSpPr'' [] [Elem ''a:spLocks'' [(''noGrp'', ''1'')] []],
            Elem ''p:nvPr'' [] [Elem ''p:ph'' ph_attrib []]],
         Elem ''p:spPr'' [] []] @ bodies)"

text \<open>
  The statements of \<^verbatim>\<open>new_placeholder_sp\<close> after its lookups, on the tree they leave and
  the reference to the \<^verbatim>\<open>p:nvPr\<close> element.
\<close>

definition placeholder_tail ::
  "ph_spec \<Rightarrow> xml \<Rightarrow> ref \<Rightarrow> string \<Rightarrow> string \<Rightarrow> string \<Rightarrow> int \<Rightarrow> xml" where
  "placeholder_tail c sp2 nvPr ph_type orient sz idx =
     (let (ph, sp3) = SubElement sp2 nvPr ''p:ph'';
          sp4 = (if ph_type \<noteq> PH_TYPE_OBJ c then etree_set sp3 ph ''type'' ph_type else sp3);
          sp5 = (if orient \<noteq> PH_ORIENT_HORZ c then etree_set sp4 ph ''orient'' orient else sp4);
          sp6 = (if sz \<noteq> PH_SZ_FULL c then etree_set sp5 ph ''sz'' sz else sp5);
          sp7 = (if idx \<noteq> 0 then etree_set sp6 ph ''idx'' (format_d idx) else sp6);
          placeholder_types_that_have_a_text_frame =
            [PH_TYPE_TITLE c, PH_TYPE_CTRTITLE c, PH_TYPE_SUBTITLE c, PH_TYPE_BODY c,
             PH_TYPE_OBJ c];
          sp8 = (if ph_type \<in> set placeholder_types_that_have_a_text_frame
                 then snd (etree_append sp7 [] new_txBody) else sp7)
      in deannotate sp8)"

text \<open>The attributes the method gives the \<^verbatim>\<open>p:ph\<close> element.\<close>

definition sparse_attrib :: "ph_spec \<Rightarrow> string \<Rightarrow> string \<Rightarrow> string \<Rightarrow> int \<Rightarrow> (string \<times> string) list" where
  "sparse_attrib c ph_type orient sz idx =
     (if ph_type \<noteq> PH_TYPE_OBJ c then [(''type'', ph_type)] else [])
     @ (if orient \<noteq> PH_ORIENT_HORZ c then [(''orient'', orient)] else [])
     @ (if sz \<noteq> PH_SZ_FULL c then [(''sz'', sz)] else [])
     @ (if idx \<noteq> 0 then [(''idx'', format_d idx)] else [])"

section \<open>Properties of the fill mutator\<close>

lemma first_tagged_eq:
  "first_tagged t cs =
     (if t \<in> tag ` set cs then Some (length (takeWhile (\<lambda>c. tag c \<noteq> t) cs)) else None)"
  by (induction cs) auto

lemma children_at_root [simp]: "children_at e [] = children e"
  by (simp add: children_at_def)

lemma etree_find_root:
  "etree_find self [] t =
     (if t \<in> tag ` set (children self)
      then Some [length (takeWhile (\<lambda>c. tag c \<noteq> t) (children self))] else None)"
  by (simp add: etree_find_def first_tagged_eq)

lemma without_first_absent: "t \<notin> tag ` set cs \<Longrightarrow> without_first t cs = cs"
  by (induction cs) (auto simp: without_first_def)

lemma remove_first_tagged:
  "take (length (takeWhile P cs)) cs @ drop (Suc (length (takeWhile P cs))) cs
     = takeWhile P cs @ drop 1 (dropWhile P cs)"
  by (induction cs) auto

lemma etree_remove_root:
  "etree_remove self [length (takeWhile (\<lambda>c. tag c \<noteq> t) (children self))]
     = Elem (tag self) (attrib self) (without_first t (children self))"
  by (simp add: etree_remove_def without_first_def remove_first_tagged)

lemma remove_if_present_eq:
  "remove_if_present self ts = Elem (tag self) (attrib self) (fold without_first ts (children self))"
proof (induction ts arbitrary: self)
  case Nil
  show ?case by simp
next
  case (Cons t ts)
  show ?case
  proof (cases "t \<in> tag ` set (children self)")
    case True
    then show ?thesis
      by (simp add: etree_find_root qn_def etree_remove_root Cons.IH)
  next
    case False
    then show ?thesis
      by (simp add: etree_find_root qn_def without_first_absent Cons.IH)
  qed
qed

lemma first_successor_in_eq:
  "first_successor_in self ts =
     (case filter (\<lambda>t. t \<in> tag ` set (children self)) ts of
        [] \<Rightarrow> None
      | t # _ \<Rightarrow> Some [length (takeWhile (\<lambda>c. tag c \<noteq> t) (children self))])"
  by (induction ts) (auto simp: etree_find_root qn_def)

lemma add_solidFill_eq:
  "add_solidFill self =
     (case filter (\<lambda>t. t \<in> tag ` set (children self))
             [''a:ln'', ''a:effectLst'', ''a:effectDag'', ''a:scene3d'', ''a:sp3d'', ''a:extLst''] of
        [] \<Rightarrow> ([length (children self)],
               Elem (tag self) (attrib self) (children self @ [Elem ''a:solidFill'' [] []]))
      | t # _ \<Rightarrow>
          ([length (takeWhile (\<lambda>c. tag c \<noteq> t) (children self))],
           Elem (tag self) (attrib self)
             (takeWhile (\<lambda>c. tag c \<noteq> t) (children self) @
              Elem ''a:solidFill'' [] [] # dropWhile (\<lambda>c. tag c \<noteq> t) (children self))))"
  unfolding add_solidFill_def Let_def first_successor_in_eq
  by (simp add: etree_addprevious_def etree_append_def Element_def
        takeWhile_eq_take [symmetric] dropWhile_eq_drop [symmetric] split: list.split)

lemma occurrences_Nil [simp]: "occurrences t [] = 0"
  by (simp add: occurrences_def)

lemma occurrences_Cons [simp]:
  "occurrences t (c # cs) = (if tag c = t then Suc (occurrences t cs) else occurrences t cs)"
  by (simp add: occurrences_def)

lemma occurrences_append [simp]:
  "occurrences t (xs @ ys) = occurrences t xs + occurrences t ys"
  by (simp add: occurrences_def)

lemma occurrences_0_iff: "occurrences t cs = 0 \<longleftrightarrow> t \<notin> tag ` set cs"
  by (induction cs) auto

lemma without_first_Nil [simp]: "without_first t [] = []"
  by (simp add: without_first_def)

lemma without_first_Cons [simp]:
  "without_first t (c # cs) = (if tag c = t then cs else c # without_first t cs)"
  by (simp add: without_first_def)

lemma set_without_first: "set (without_first t cs) \<subseteq> set cs"
  by (induction cs) auto

lemma set_fold_without_first: "set (fold without_first ts cs) \<subseteq> set cs"
proof (induction ts arbitrary: cs)
  case Nil
  show ?case by simp
next
  case (Cons t ts)
  have "set (fold without_first ts (without_first t cs)) \<subseteq> set (without_first t cs)"
    by (rule Cons.IH)
  also have "\<dots> \<subseteq> set cs"
    by (rule set_without_first)
  finally show ?case by simp
qed

lemma occurrences_without_first:
  "occurrences u (without_first t cs) =
     (if u = t then occurrences t cs - 1 else occurrences u cs)"
  by (induction cs) auto

lemma without_first_once:
  "occurrences t cs \<le> 1 \<Longrightarrow> without_first t cs = filter (\<lambda>c. tag c \<noteq> t) cs"
proof (induction cs)
  case Nil
  show ?case by simp
next
  case (Cons c cs)
  show ?case
  proof (cases "tag c = t")
    case True
    with Cons.prems have "occurrences t cs = 0" by simp
    then have "\<forall>x \<in> set cs. tag x \<noteq> t"
      by (auto simp: occurrences_0_iff)
    then have "filter (\<lambda>c. tag c \<noteq> t) cs = cs"
      by (simp add: filter_id_conv)
    with True show ?thesis by simp
  next
    case False
    with Cons show ?thesis by simp
  qed
qed

lemma fold_without_first_once:
  "\<forall>t \<in> set ts. occurrences t cs \<le> 1 \<Longrightarrow>
     fold without_first ts cs = filter (\<lambda>c. tag c \<notin> set ts) cs"
proof (induction ts arbitrary: cs)
  case Nil
  show ?case by simp
next
  case (Cons t ts)
  have "\<forall>u \<in> set ts. occurrences u (without_first t cs) \<le> 1"
    using Cons.prems by (auto simp: occurrences_without_first)
  then have "fold without_first ts (without_first t cs)
               = filter (\<lambda>c. tag c \<notin> set ts) (without_first t cs)"
    by (rule Cons.IH)
  moreover have "without_first t cs = filter (\<lambda>c. tag c \<noteq> t) cs"
    using Cons.prems by (simp add: without_first_once)
  ultimately show ?case
    by (simp add: conj_commute)
qed

lemma coerce_without_solid_fill:
  assumes absent: "''a:solidFill'' \<notin> tag ` set (children self)"
  shows "\<exists>pre post.
      get_or_change_to_solidFill self =
        ([length pre], Elem (tag self) (attrib self) (pre @ Elem ''a:solidFill'' [] [] # post))
    \<and> pre @ post = fold without_first other_fill_tags (children self)
    \<and> (case filter (\<lambda>t. t \<in> tag ` set (pre @ post)) successor_tags of
         [] \<Rightarrow> post = []
       | t # _ \<Rightarrow> t \<notin> tag ` set pre \<and> (\<exists>c rest. post = c # rest \<and> tag c = t))"
proof -
  define kept where "kept = fold without_first other_fill_tags (children self)"
  define present where "present = filter (\<lambda>t. t \<in> tag ` set kept) successor_tags"
  have "get_or_change_to_solidFill self = add_solidFill (Elem (tag self) (attrib self) kept)"
    using absent
    by (simp add: get_or_change_to_solidFill_def solidFill_def etree_find_root qn_def
          remove_if_present_eq kept_def)
  also have "\<dots> =
     (case present of
        [] \<Rightarrow> ([length kept],
               Elem (tag self) (attrib self) (kept @ [Elem ''a:solidFill'' [] []]))
      | t # _ \<Rightarrow>
          ([length (takeWhile (\<lambda>c. tag c \<noteq> t) kept)],
           Elem (tag self) (attrib self)
             (takeWhile (\<lambda>c. tag c \<noteq> t) kept @
              Elem ''a:solidFill'' [] [] # dropWhile (\<lambda>c. tag c \<noteq> t) kept)))"
    unfolding present_def by (simp only: add_solidFill_eq xml.sel)
  finally have call: "get_or_change_to_solidFill self =
     (case present of
        [] \<Rightarrow> ([length kept],
               Elem (tag self) (attrib self) (kept @ [Elem ''a:solidFill'' [] []]))
      | t # _ \<Rightarrow>
          ([length (takeWhile (\<lambda>c. tag c \<noteq> t) kept)],
           Elem (tag self) (attrib self)
             (takeWhile (\<lambda>c. tag c \<noteq> t) kept @
              Elem ''a:solidFill'' [] [] # dropWhile (\<lambda>c. tag c \<noteq> t) kept)))" .
  show ?thesis
  proof (cases present)
    case Nil
    have "get_or_change_to_solidFill self =
        ([length kept], Elem (tag self) (attrib self) (kept @ Elem ''a:solidFill'' [] [] # []))"
      unfolding call by (simp only: Nil list.case)
    moreover have "kept @ [] = fold without_first other_fill_tags (children self)"
      by (simp add: kept_def)
    moreover have "(case filter (\<lambda>t. t \<in> tag ` set (kept @ [])) successor_tags of
         [] \<Rightarrow> ([]::xml list) = []
       | t # _ \<Rightarrow> t \<notin> tag ` set kept \<and> (\<exists>c rest. [] = c # rest \<and> tag c = t))"
      using Nil unfolding present_def by (simp only: append_Nil2 list.case)
    ultimately show ?thesis by blast
  next
    case (Cons t rest)
    define pre where "pre = takeWhile (\<lambda>c. tag c \<noteq> t) kept"
    define post where "post = dropWhile (\<lambda>c. tag c \<noteq> t) kept"
    have "t \<in> set present" by (simp only: Cons list.set insertI1)
    then have t_in: "t \<in> tag ` set kept"
      unfolding present_def set_filter by blast
    have split: "pre @ post = kept" by (simp add: pre_def post_def)
    have "get_or_change_to_solidFill self =
        ([length pre], Elem (tag self) (attrib self) (pre @ Elem ''a:solidFill'' [] [] # post))"
      unfolding call pre_def post_def by (simp only: Cons list.case)
    moreover have "pre @ post = fold without_first other_fill_tags (children self)"
      by (simp add: split kept_def)
    moreover have "t \<notin> tag ` set pre"
      by (auto simp: pre_def dest: set_takeWhileD)
    moreover have "\<exists>c rest. post = c # rest \<and> tag c = t"
    proof -
      have ne: "post \<noteq> []" using t_in by (auto simp: post_def)
      then have "tag (hd post) = t"
        unfolding post_def using hd_dropWhile [of "\<lambda>c. tag c \<noteq> t" kept] by simp
      with ne show ?thesis by (cases post) auto
    qed
    moreover have "(case filter (\<lambda>t. t \<in> tag ` set (pre @ post)) successor_tags of
         [] \<Rightarrow> post = []
       | t # _ \<Rightarrow> t \<notin> tag ` set pre \<and> (\<exists>c rest. post = c # rest \<and> tag c = t))
       = (t \<notin> tag ` set pre \<and> (\<exists>c rest. post = c # rest \<and> tag c = t))"
      using Cons unfolding present_def split by (simp only: list.case)
    ultimately show ?thesis by blast
  qed
qed

lemma coerce_with_solid_fill:
  assumes "solidFill self = Some existing"
  shows "get_or_change_to_solidFill self = (existing, self)"
  using assms by (simp add: get_or_change_to_solidFill_def)

lemma solidFill_eq:
  "solidFill self =
     (if ''a:solidFill'' \<in> tag ` set (children self)
      then Some [length (takeWhile (\<lambda>c. tag c \<noteq> ''a:solidFill'') (children self))] else None)"
  by (simp add: solidFill_def qn_def etree_find_root)

lemma solidFill_inserted:
  assumes "''a:solidFill'' \<notin> tag ` set pre"
  shows "solidFill (Elem t a (pre @ Elem ''a:solidFill'' [] [] # post)) = Some [length pre]"
proof -
  have "takeWhile (\<lambda>c. tag c \<noteq> ''a:solidFill'') (pre @ Elem ''a:solidFill'' [] [] # post) = pre"
    using assms by (subst takeWhile_append2) (auto simp: image_iff)
  then show ?thesis
    by (simp add: solidFill_eq)
qed

lemma first_tagged_Some:
  "first_tagged t cs = Some i \<Longrightarrow> i < length cs \<and> tag (cs ! i) = t"
  by (induction cs arbitrary: i) (auto split: if_splits)

lemma solidFill_Some:
  assumes "solidFill self = Some r"
  shows "\<exists>c. node_at self r = Some c \<and> tag c = ''a:solidFill''"
proof -
  from assms obtain i where r: "r = [i]"
    and i: "first_tagged ''a:solidFill'' (children self) = Some i"
    by (auto simp: solidFill_def etree_find_def qn_def)
  from first_tagged_Some [OF i] show ?thesis
    by (simp add: r)
qed

lemma coerce_idempotent:
  "\<exists>r s c. get_or_change_to_solidFill self = (r, s)
      \<and> get_or_change_to_solidFill s = (r, s)
      \<and> solidFill s = Some r
      \<and> node_at s r = Some c \<and> tag c = ''a:solidFill''"
proof (cases "solidFill self")
  case (Some r)
  with solidFill_Some [OF Some] coerce_with_solid_fill [OF Some] show ?thesis
    by blast
next
  case None
  then have False: "''a:solidFill'' \<notin> tag ` set (children self)"
    by (simp add: solidFill_eq split: if_splits)
  from coerce_without_solid_fill [OF False] obtain pre post where
    call: "get_or_change_to_solidFill self =
        ([length pre], Elem (tag self) (attrib self) (pre @ Elem ''a:solidFill'' [] [] # post))"
    and kept: "pre @ post = fold without_first other_fill_tags (children self)"
    by blast
  define s where "s = Elem (tag self) (attrib self) (pre @ Elem ''a:solidFill'' [] [] # post)"
  have "set pre \<subseteq> set (pre @ post)" by simp
  also have "\<dots> \<subseteq> set (children self)"
    unfolding kept by (rule set_fold_without_first)
  finally have "''a:solidFill'' \<notin> tag ` set pre"
    using False by blast
  then have found: "solidFill s = Some [length pre]"
    unfolding s_def by (rule solidFill_inserted)
  have "node_at s [length pre] = Some (Elem ''a:solidFill'' [] [])"
    by (simp add: s_def)
  with call found coerce_with_solid_fill [OF found] show ?thesis
    unfolding s_def [symmetric] by (intro exI [of _ "[length pre]"] exI [of _ s] exI [of _ "Elem ''a:solidFill'' [] []"]) simp
qed

lemma fill_count_occurrences:
  "length (filter (\<lambda>c. tag c \<in> set fill_tags) cs) =
     occurrences ''a:noFill'' cs + occurrences ''a:solidFill'' cs + occurrences ''a:gradFill'' cs
     + occurrences ''a:blipFill'' cs + occurrences ''a:pattFill'' cs + occurrences ''a:grpFill'' cs"
  by (induction cs) auto

lemma occurrences_kept:
  "occurrences u (fold without_first other_fill_tags cs) =
     (if u \<in> set other_fill_tags then occurrences u cs - 1 else occurrences u cs)"
  by (simp add: occurrences_without_first)

lemma fill_count_after_insert:
  assumes absent: "''a:solidFill'' \<notin> tag ` set (children self)"
  shows "fill_count (snd (get_or_change_to_solidFill self)) =
     1 + (occurrences ''a:noFill'' (children self) - 1)
       + (occurrences ''a:gradFill'' (children self) - 1)
       + (occurrences ''a:blipFill'' (children self) - 1)
       + (occurrences ''a:pattFill'' (children self) - 1)
       + (occurrences ''a:grpFill'' (children self) - 1)"
proof -
  from coerce_without_solid_fill [OF absent] obtain pre post where
    call: "get_or_change_to_solidFill self =
        ([length pre], Elem (tag self) (attrib self) (pre @ Elem ''a:solidFill'' [] [] # post))"
    and kept: "pre @ post = fold without_first other_fill_tags (children self)"
    by blast
  have occ: "occurrences u (pre @ Elem ''a:solidFill'' [] [] # post) =
      occurrences u (pre @ post) + (if u = ''a:solidFill'' then 1 else 0)" for u
    by auto
  have none: "occurrences ''a:solidFill'' (children self) = 0"
    using absent by (simp add: occurrences_0_iff)
  show ?thesis
    unfolding fill_count_def call snd_conv xml.sel fill_count_occurrences occ kept occurrences_kept
    using none by simp
qed

lemma sparse_fills_iff:
  "(a - 1) + (b - 1) + (c - 1) + (d - 1) + (e - 1) = (0::nat)
     \<longleftrightarrow> a \<le> 1 \<and> b \<le> 1 \<and> c \<le> 1 \<and> d \<le> 1 \<and> e \<le> 1"
  by auto

text \<open>
  C1. On a properties element with no solid fill among its children,
  \<^verbatim>\<open>get_or_change_to_solidFill\<close> takes out, for each of the tags no-fill, gradient
  fill, picture fill, pattern fill and group fill, the first child carrying it, and puts
  a new solid fill with no attribute and no child among the children that are kept:
  immediately before the first child carrying the first of the tags line, effect list,
  effect graph, scene 3D, shape 3D, extension list that a kept child carries, or after
  the last child when no kept child carries one of them. The reference returned is that
  of the new element. When none of the five fill tags occurs twice, the children kept are
  all the children that are not such a fill.
\<close>

theorem coerce_inserts_solid_fill:
  assumes "''a:solidFill'' \<notin> tag ` set (children self)"
  shows "\<exists>pre post.
      get_or_change_to_solidFill self =
        ([length pre], Elem (tag self) (attrib self) (pre @ Elem ''a:solidFill'' [] [] # post))
    \<and> pre @ post = fold without_first other_fill_tags (children self)
    \<and> (case filter (\<lambda>t. t \<in> tag ` set (pre @ post)) successor_tags of
         [] \<Rightarrow> post = []
       | t # _ \<Rightarrow> t \<notin> tag ` set pre \<and> (\<exists>c rest. post = c # rest \<and> tag c = t))
    \<and> ((\<forall>t \<in> set other_fill_tags. occurrences t (children self) \<le> 1) \<longrightarrow>
         pre @ post = filter (\<lambda>c. tag c \<notin> set other_fill_tags) (children self))"
proof -
  from coerce_without_solid_fill [OF assms] obtain pre post where
    call: "get_or_change_to_solidFill self =
        ([length pre], Elem (tag self) (attrib self) (pre @ Elem ''a:solidFill'' [] [] # post))"
    and kept: "pre @ post = fold without_first other_fill_tags (children self)"
    and place: "(case filter (\<lambda>t. t \<in> tag ` set (pre @ post)) successor_tags of
         [] \<Rightarrow> post = []
       | t # _ \<Rightarrow> t \<notin> tag ` set pre \<and> (\<exists>c rest. post = c # rest \<and> tag c = t))"
    by blast
  have "(\<forall>t \<in> set other_fill_tags. occurrences t (children self) \<le> 1) \<longrightarrow>
         pre @ post = filter (\<lambda>c. tag c \<notin> set other_fill_tags) (children self)"
    unfolding kept using fold_without_first_once [of other_fill_tags "children self"] by blast
  with call kept place show ?thesis by blast
qed

theorem coerce_inserts_solid_fill_witness:
  "''a:solidFill'' \<notin> tag ` set (children
      (Elem ''p:spPr'' []
         [Elem ''a:xfrm'' [] [], Elem ''a:noFill'' [] [], Elem ''a:ln'' [] [],
          Elem ''a:extLst'' [] []]))
   \<and> get_or_change_to_solidFill
      (Elem ''p:spPr'' []
         [Elem ''a:xfrm'' [] [], Elem ''a:noFill'' [] [], Elem ''a:ln'' [] [],
          Elem ''a:extLst'' [] []])
     = ([1], Elem ''p:spPr'' []
         [Elem ''a:xfrm'' [] [], Elem ''a:solidFill'' [] [], Elem ''a:ln'' [] [],
          Elem ''a:extLst'' [] []])"
proof -
  let ?self = "Elem ''p:spPr'' []
         [Elem ''a:xfrm'' [] [], Elem ''a:noFill'' [] [], Elem ''a:ln'' [] [],
          Elem ''a:extLst'' [] []]"
  have absent: "''a:solidFill'' \<notin> tag ` set (children ?self)" by simp
  from coerce_inserts_solid_fill [OF absent] obtain pre post where
    call: "get_or_change_to_solidFill ?self =
        ([length pre], Elem (tag ?self) (attrib ?self) (pre @ Elem ''a:solidFill'' [] [] # post))"
    and kept: "pre @ post = fold without_first other_fill_tags (children ?self)"
    and place: "(case filter (\<lambda>t. t \<in> tag ` set (pre @ post)) successor_tags of
         [] \<Rightarrow> post = []
       | t # _ \<Rightarrow> t \<notin> tag ` set pre \<and> (\<exists>c rest. post = c # rest \<and> tag c = t))"
    by blast
  have kept': "pre @ post = [Elem ''a:xfrm'' [] [], Elem ''a:ln'' [] [], Elem ''a:extLst'' [] []]"
    unfolding kept by simp
  from place have "''a:ln'' \<notin> tag ` set pre \<and> (\<exists>c rest. post = c # rest \<and> tag c = ''a:ln'')"
    unfolding kept' by simp
  with kept' have "pre = [Elem ''a:xfrm'' [] []] \<and> post = [Elem ''a:ln'' [] [], Elem ''a:extLst'' [] []]"
    by (auto simp: append_eq_Cons_conv Cons_eq_append_conv)
  with call absent show ?thesis by simp
qed

text \<open>
  C2. \<^verbatim>\<open>get_or_change_to_solidFill\<close> is idempotent. When the element has a solid fill,
  the call returns the reference to it and leaves the tree as it is. In every case a
  second call, on the tree the first call leaves, returns the same reference and leaves
  that tree unchanged; the reference is the one the \<^verbatim>\<open>solidFill\<close> property reads, and
  the element it refers to is a solid fill.
\<close>

theorem coerce_is_idempotent:
  "(\<forall>existing. solidFill self = Some existing \<longrightarrow>
       get_or_change_to_solidFill self = (existing, self))
   \<and> (\<exists>r s c. get_or_change_to_solidFill self = (r, s)
         \<and> get_or_change_to_solidFill s = (r, s)
         \<and> solidFill s = Some r
         \<and> node_at s r = Some c \<and> tag c = ''a:solidFill'')"
  using coerce_with_solid_fill coerce_idempotent by blast

theorem coerce_is_idempotent_witness:
  "solidFill (Elem ''p:spPr'' []
      [Elem ''a:solidFill'' [] [Elem ''a:srgbClr'' [(''val'', ''FF0000'')] []],
       Elem ''a:ln'' [] []]) = Some [0]
   \<and> get_or_change_to_solidFill (Elem ''p:spPr'' []
      [Elem ''a:solidFill'' [] [Elem ''a:srgbClr'' [(''val'', ''FF0000'')] []],
       Elem ''a:ln'' [] []])
     = ([0], Elem ''p:spPr'' []
      [Elem ''a:solidFill'' [] [Elem ''a:srgbClr'' [(''val'', ''FF0000'')] []],
       Elem ''a:ln'' [] []])"
proof -
  let ?self = "Elem ''p:spPr'' []
      [Elem ''a:solidFill'' [] [Elem ''a:srgbClr'' [(''val'', ''FF0000'')] []],
       Elem ''a:ln'' [] []]"
  have found: "solidFill ?self = Some [0]"
    by (simp add: solidFill_def etree_find_def qn_def)
  from coerce_is_idempotent [of ?self] found
  have "get_or_change_to_solidFill ?self = ([0], ?self)" by blast
  with found show ?thesis by simp
qed

text \<open>
  C4. After \<^verbatim>\<open>get_or_change_to_solidFill\<close> at most one fill element is among the
  children exactly when the element had a solid fill and no other fill, or had no solid
  fill and none of the tags no-fill, gradient fill, picture fill, pattern fill and group
  fill on two children. In particular an element with at most one fill element has
  exactly one afterwards. The call takes out only the first child carrying each tag, and
  takes out nothing when a solid fill is there, so a fill that occurs twice stays.
\<close>

theorem at_most_one_fill_after_coercion:
  "(fill_count (snd (get_or_change_to_solidFill self)) \<le> 1 \<longleftrightarrow>
     (if ''a:solidFill'' \<in> tag ` set (children self)
      then fill_count self \<le> 1
      else \<forall>t \<in> set other_fill_tags. occurrences t (children self) \<le> 1))
   \<and> (fill_count self \<le> 1 \<longrightarrow> fill_count (snd (get_or_change_to_solidFill self)) = 1)"
proof (cases "''a:solidFill'' \<in> tag ` set (children self)")
  case True
  then obtain r where "solidFill self = Some r"
    by (auto simp: solidFill_eq)
  then have same: "get_or_change_to_solidFill self = (r, self)"
    by (rule coerce_with_solid_fill)
  have "occurrences ''a:solidFill'' (children self) \<noteq> 0"
    using True by (simp add: occurrences_0_iff)
  then have "1 \<le> fill_count self"
    unfolding fill_count_def fill_count_occurrences by simp
  with True same show ?thesis by simp
next
  case False
  have "fill_count self \<le> 1 \<longrightarrow>
      (\<forall>t \<in> set other_fill_tags. occurrences t (children self) \<le> 1)"
    unfolding fill_count_def fill_count_occurrences by simp
  then show ?thesis
    unfolding fill_count_after_insert [OF False] using False
    by (simp add: sparse_fills_iff [symmetric])
qed

theorem at_most_one_fill_after_coercion_witness:
  "fill_count (Elem ''p:spPr'' [] [Elem ''a:pattFill'' [] [], Elem ''a:ln'' [] []]) \<le> 1
   \<and> fill_count (snd (get_or_change_to_solidFill
        (Elem ''p:spPr'' [] [Elem ''a:pattFill'' [] [], Elem ''a:ln'' [] []]))) = 1"
proof -
  have "fill_count (Elem ''p:spPr'' [] [Elem ''a:pattFill'' [] [], Elem ''a:ln'' [] []]) \<le> 1"
    by (simp add: fill_count_def)
  with at_most_one_fill_after_coercion
         [of "Elem ''p:spPr'' [] [Elem ''a:pattFill'' [] [], Elem ''a:ln'' [] []]"]
  show ?thesis by blast
qed

text \<open>
  The claim as it is written, for every element, fails on an element with the same fill
  twice: the first gradient fill is taken out, the second stays beside the new solid fill.
\<close>

theorem duplicate_fill_survives_coercion:
  "get_or_change_to_solidFill
     (Elem ''p:spPr'' [] [Elem ''a:gradFill'' [] [], Elem ''a:gradFill'' [] []])
   = ([1], Elem ''p:spPr'' [] [Elem ''a:gradFill'' [] [], Elem ''a:solidFill'' [] []])
   \<and> fill_count (snd (get_or_change_to_solidFill
       (Elem ''p:spPr'' [] [Elem ''a:gradFill'' [] [], Elem ''a:gradFill'' [] []]))) = 2"
  by (simp add: get_or_change_to_solidFill_def solidFill_def etree_find_def qn_def
        add_solidFill_def etree_remove_def etree_append_def etree_addprevious_def Element_def
        fill_count_def)

section \<open>Properties of the guide manager\<close>

lemma remove_positions_Suc:
  "sorted_wrt (<) js \<Longrightarrow> remove_positions (map Suc js) (x # xs) = x # remove_positions js xs"
proof (induction "length js" arbitrary: js xs)
  case 0
  then show ?case by simp
next
  case (Suc n)
  then obtain j rest where js: "js = j # rest" by (cases js) auto
  from Suc.prems have later: "\<forall>k \<in> set rest. j < k" and sorted: "sorted_wrt (<) rest"
    by (auto simp: js)
  define rest' where "rest' = map (\<lambda>k. k - 1) rest"
  have restore: "map Suc rest' = rest"
  proof -
    have "map (\<lambda>k. Suc (k - 1)) rest = map (\<lambda>k. k) rest"
      using later by (intro map_cong) auto
    then show ?thesis by (simp add: rest'_def o_def)
  qed
  have sorted': "sorted_wrt (<) rest'"
    using sorted unfolding restore [symmetric] by (simp add: sorted_wrt_map)
  have len: "n = length rest'"
    using Suc.hyps(2) by (simp add: js rest'_def)
  have "remove_positions (map Suc js) (x # xs)
          = remove_positions (map (\<lambda>k. k - 1) (map Suc rest)) (x # (take j xs @ drop (Suc j) xs))"
    unfolding js by simp
  also have "map (\<lambda>k. k - 1) (map Suc rest) = map Suc rest'"
    unfolding restore by (simp add: o_def)
  also have "remove_positions (map Suc rest') (x # (take j xs @ drop (Suc j) xs))
       = x # remove_positions rest' (take j xs @ drop (Suc j) xs)"
    using Suc.hyps(1) [OF len sorted'] .
  also have "\<dots> = x # remove_positions js xs"
    by (simp add: js rest'_def)
  finally show ?case .
qed

lemma sorted_tagged_positions: "sorted_wrt (<) (tagged_positions t cs)"
  by (induction cs) (auto simp: sorted_wrt_map sorted_wrt_append)

lemma remove_tagged_positions:
  "remove_positions (tagged_positions t cs) cs = filter (\<lambda>c. tag c \<noteq> t) cs"
  by (induction cs) (auto simp: o_def remove_positions_Suc sorted_tagged_positions)

lemma remove_each_child:
  assumes "i < length (children root)"
  shows "remove_each root (map (\<lambda>j. [i, j]) js) =
     Elem (tag root) (attrib root)
       ((children root)[i := Elem (tag (children root ! i)) (attrib (children root ! i))
                               (remove_positions js (children (children root ! i)))])"
  using assms
proof (induction "length js" arbitrary: js root)
  case 0
  then show ?case by (cases root) (simp add: list_update_same_conv)
next
  case (Suc n)
  then obtain j rest where js: "js = j # rest" by (cases js) auto
  define c where "c = children root ! i"
  define root' where "root' = etree_remove root [i, j]"
  have root': "root' = Elem (tag root) (attrib root)
      ((children root)[i := Elem (tag c) (attrib c) (take j (children c) @ drop (Suc j) (children c))])"
    using Suc.prems by (simp add: root'_def etree_remove_def c_def)
  have len: "n = length (map (\<lambda>k. k - 1) rest)"
    using Suc.hyps(2) by (simp add: js)
  have i': "i < length (children root')"
    using Suc.prems by (simp add: root')
  have moved: "map moved_down (map (\<lambda>j. [i, j]) rest) = map (\<lambda>j. [i, j]) (map (\<lambda>k. k - 1) rest)"
    by (simp add: moved_down_def)
  have "remove_each root (map (\<lambda>j. [i, j]) js)
          = remove_each root' (map (\<lambda>j. [i, j]) (map (\<lambda>k. k - 1) rest))"
    by (simp only: js list.map remove_each.simps moved root'_def)
  also have "\<dots> = Elem (tag root') (attrib root')
       ((children root')[i := Elem (tag (children root' ! i)) (attrib (children root' ! i))
                               (remove_positions (map (\<lambda>k. k - 1) rest) (children (children root' ! i)))])"
    using Suc.hyps(1) [OF len i'] .
  also have "\<dots> = Elem (tag root) (attrib root)
       ((children root)[i := Elem (tag c) (attrib c) (remove_positions js (children c))])"
    using Suc.prems by (simp add: root' js)
  finally show ?case unfolding c_def .
qed

lemma add_guides_child:
  assumes "i < length (children root)"
  shows "add_guides root [i] guides =
     Elem (tag root) (attrib root)
       ((children root)[i := Elem (tag (children root ! i)) (attrib (children root ! i))
                               (children (children root ! i) @ map serialized_guide guides)])"
  using assms
proof (induction guides arbitrary: root)
  case Nil
  then show ?case by (cases root) (simp add: list_update_same_conv)
next
  case (Cons g guides)
  obtain name val where g: "g = (name, val)" by (cases g)
  define c where "c = children root ! i"
  define root3 where "root3 = Elem (tag root) (attrib root)
      ((children root)[i := Elem (tag c) (attrib c) (children c @ [serialized_guide g])])"
  have step: "add_guides root [i] (g # guides) = add_guides root3 [i] guides"
    using Cons.prems
    by (simp add: g root3_def c_def SubElement_def etree_append_def children_at_def
          etree_set_def Element_def serialized_guide_def Let_def nth_append)
  have i3: "i < length (children root3)"
    using Cons.prems by (simp add: root3_def)
  show ?case
    unfolding step Cons.IH [OF i3] using Cons.prems
    by (simp add: root3_def c_def)
qed


lemma first_tagged_None: "first_tagged t cs = None \<longleftrightarrow> t \<notin> tag ` set cs"
  by (simp add: first_tagged_eq)

lemma first_tagged_update:
  "i < length cs \<Longrightarrow> tag x = tag (cs ! i) \<Longrightarrow> first_tagged t (cs[i := x]) = first_tagged t cs"
  by (induction cs arbitrary: i) (auto split: nat.splits)

lemma first_tagged_split:
  "tag c = t \<Longrightarrow> t \<notin> tag ` set pre \<Longrightarrow> first_tagged t (pre @ c # post) = Some (length pre)"
  by (induction pre) auto

lemma tagged_positions_absent: "t \<notin> tag ` set cs \<Longrightarrow> tagged_positions t cs = []"
  by (induction cs) auto

lemma filter_absent: "t \<notin> tag ` set cs \<Longrightarrow> filter (\<lambda>c. tag c \<noteq> t) cs = cs"
  by (induction cs) auto

lemma nth_tagged_positions:
  "map ((!) cs) (tagged_positions t cs) = filter (\<lambda>c. tag c = t) cs"
  by (induction cs) (auto simp: o_def)

lemma tagged_positions_less: "j \<in> set (tagged_positions t cs) \<Longrightarrow> j < length cs"
  by (induction cs arbitrary: j) auto

lemma filter_serialized [simp]:
  "filter (\<lambda>c. tag c \<noteq> ''a:gd'') (map serialized_guide gs) = []"
  "filter (\<lambda>c. tag c = ''a:gd'') (map serialized_guide gs) = map serialized_guide gs"
  by (induction gs) (auto simp: serialized_guide_def)

lemma rewrite_guides_absent:
  assumes "''a:avLst'' \<notin> tag ` set (children self)"
  shows "rewrite_guides self guides =
     Inr (Elem (tag self) (attrib self)
            (children self @ [Elem ''a:avLst'' [] (map serialized_guide guides)]))"
proof -
  define self1 where "self1 = Elem (tag self) (attrib self) (children self @ [Elem ''a:avLst'' [] []])"
  have none: "first_tagged ''a:avLst'' (children self) = None"
    using assms by (simp add: first_tagged_None)
  have sub: "SubElement self [] ''a:avLst'' = ([length (children self)], self1)"
    by (simp add: SubElement_def etree_append_def Element_def self1_def)
  have first: "objectify_getattr self [] ''a:avLst'' = Inl AttributeError"
    by (simp add: objectify_getattr_def none)
  have again: "objectify_getattr self1 [] ''a:avLst'' = Inr [length (children self)]"
    using assms by (simp add: objectify_getattr_def self1_def first_tagged_split)
  have nogd: "\<not> objectify_hasattr self1 [length (children self)] ''a:gd''"
    by (simp add: objectify_hasattr_def objectify_getattr_def children_at_def self1_def)
  have "rewrite_guides self guides = Inr (add_guides self1 [length (children self)] guides)"
    by (simp add: rewrite_guides_def first sub again nogd)
  also have "add_guides self1 [length (children self)] guides =
      Elem (tag self) (attrib self)
            (children self @ [Elem ''a:avLst'' [] (map serialized_guide guides)])"
    by (subst add_guides_child) (simp_all add: self1_def)
  finally show ?thesis .
qed

lemma rewrite_guides_present:
  assumes found: "first_tagged ''a:avLst'' (children self) = Some i"
  shows "rewrite_guides self guides =
     Inr (Elem (tag self) (attrib self)
            ((children self)[i := Elem (tag (children self ! i)) (attrib (children self ! i))
               (filter (\<lambda>c. tag c \<noteq> ''a:gd'') (children (children self ! i))
                @ map serialized_guide guides)]))"
proof -
  define c where "c = children self ! i"
  from first_tagged_Some [OF found] have i: "i < length (children self)" by simp
  define self2 where "self2 = Elem (tag self) (attrib self)
      ((children self)[i := Elem (tag c) (attrib c) (filter (\<lambda>c. tag c \<noteq> ''a:gd'') (children c))])"
  have kids: "children_at self [i] = children c"
    using i by (simp add: children_at_def c_def)
  have removed: "(if objectify_hasattr self [i] ''a:gd''
                  then remove_each self (objectify_iter self [i] ''a:gd'') else self) = self2"
  proof (cases "''a:gd'' \<in> tag ` set (children c)")
    case True
    then have "objectify_hasattr self [i] ''a:gd''"
      by (simp add: objectify_hasattr_def objectify_getattr_def kids first_tagged_eq)
    moreover have "remove_each self (objectify_iter self [i] ''a:gd'') = self2"
      unfolding objectify_iter_def kids
      using remove_each_child [OF i, of "tagged_positions ''a:gd'' (children c)"]
      by (simp add: remove_tagged_positions self2_def c_def)
    ultimately show ?thesis by simp
  next
    case False
    then have "\<not> objectify_hasattr self [i] ''a:gd''"
      by (simp add: objectify_hasattr_def objectify_getattr_def kids first_tagged_eq)
    moreover have "self2 = self"
      using False i by (cases self) (simp add: self2_def filter_absent c_def list_update_same_conv)
    ultimately show ?thesis by simp
  qed
  have first: "objectify_getattr self [] ''a:avLst'' = Inr [i]"
    by (simp add: objectify_getattr_def found)
  have "rewrite_guides self guides = Inr (add_guides self2 [i] guides)"
    by (simp add: rewrite_guides_def first removed)
  also have "add_guides self2 [i] guides =
      Elem (tag self) (attrib self)
        ((children self)[i := Elem (tag c) (attrib c)
           (filter (\<lambda>c. tag c \<noteq> ''a:gd'') (children c) @ map serialized_guide guides)])"
    using i by (subst add_guides_child) (simp_all add: self2_def)
  finally show ?thesis unfolding c_def .
qed

lemma gd_eq:
  "gd self =
     (case first_tagged ''a:avLst'' (children self) of
        None \<Rightarrow> []
      | Some i \<Rightarrow> map (\<lambda>j. [i, j]) (tagged_positions ''a:gd'' (children (children self ! i))))"
proof (cases "first_tagged ''a:avLst'' (children self)")
  case None
  then show ?thesis by (simp add: gd_def objectify_getattr_def)
next
  case (Some i)
  from first_tagged_Some [OF Some] have i: "i < length (children self)" by simp
  then have kids: "children_at self [i] = children (children self ! i)"
    by (simp add: children_at_def)
  show ?thesis
  proof (cases "first_tagged ''a:gd'' (children (children self ! i))")
    case None
    then have "tagged_positions ''a:gd'' (children (children self ! i)) = []"
      by (simp add: first_tagged_None tagged_positions_absent)
    with None Some show ?thesis
      by (simp add: gd_def objectify_getattr_def kids)
  next
    case (Some j)
    with \<open>first_tagged ''a:avLst'' (children self) = Some i\<close> show ?thesis
      by (simp add: gd_def objectify_getattr_def kids objectify_iter_def)
  qed
qed


lemma gd_contents:
  "map (node_at self) (gd self) =
     (case first_tagged ''a:avLst'' (children self) of
        None \<Rightarrow> []
      | Some i \<Rightarrow> map Some (filter (\<lambda>c. tag c = ''a:gd'') (children (children self ! i))))"
proof (cases "first_tagged ''a:avLst'' (children self)")
  case None
  then show ?thesis by (simp add: gd_eq)
next
  case (Some i)
  from first_tagged_Some [OF Some] have i: "i < length (children self)" by simp
  define kids where "kids = children (children self ! i)"
  have "map (node_at self) (gd self) = map (\<lambda>j. node_at self [i, j]) (tagged_positions ''a:gd'' kids)"
    by (simp add: gd_eq Some kids_def o_def)
  also have "\<dots> = map (\<lambda>j. Some (kids ! j)) (tagged_positions ''a:gd'' kids)"
    using i by (intro map_cong) (auto simp: kids_def dest: tagged_positions_less)
  also have "\<dots> = map Some (map ((!) kids) (tagged_positions ''a:gd'' kids))"
    by (simp add: o_def)
  also have "\<dots> = map Some (filter (\<lambda>c. tag c = ''a:gd'') kids)"
    by (simp only: nth_tagged_positions)
  finally show ?thesis by (simp add: Some kids_def)
qed

lemma rewrite_guides_cases:
  "rewrite_guides self guides =
     Inr (Elem (tag self) (attrib self)
       (case first_tagged ''a:avLst'' (children self) of
          None \<Rightarrow> children self @ [Elem ''a:avLst'' [] (map serialized_guide guides)]
        | Some i \<Rightarrow>
            (children self)[i := Elem ''a:avLst'' (attrib (children self ! i))
               (filter (\<lambda>c. tag c \<noteq> ''a:gd'') (children (children self ! i))
                @ map serialized_guide guides)]))"
proof (cases "first_tagged ''a:avLst'' (children self)")
  case None
  then have "''a:avLst'' \<notin> tag ` set (children self)"
    by (simp add: first_tagged_None)
  then show ?thesis
    by (simp add: rewrite_guides_absent None)
next
  case (Some i)
  with first_tagged_Some [OF Some] show ?thesis
    by (simp add: rewrite_guides_present)
qed

lemma rewrite_guides_twice:
  assumes "rewrite_guides self g1 = Inr s1"
  shows "rewrite_guides s1 g2 = rewrite_guides self g2"
proof (cases "first_tagged ''a:avLst'' (children self)")
  case None
  then have absent: "''a:avLst'' \<notin> tag ` set (children self)"
    by (simp add: first_tagged_None)
  from assms have s1: "s1 = Elem (tag self) (attrib self)
      (children self @ [Elem ''a:avLst'' [] (map serialized_guide g1)])"
    by (simp add: rewrite_guides_cases None)
  have found: "first_tagged ''a:avLst'' (children s1) = Some (length (children self))"
    using absent by (simp add: s1 first_tagged_split)
  show ?thesis
    by (simp add: rewrite_guides_cases [of s1] found rewrite_guides_cases [of self] None)
       (simp add: s1)
next
  case (Some i)
  from first_tagged_Some [OF Some] have i: "i < length (children self)" by simp
  from assms have s1: "s1 = Elem (tag self) (attrib self)
      ((children self)[i := Elem ''a:avLst'' (attrib (children self ! i))
         (filter (\<lambda>c. tag c \<noteq> ''a:gd'') (children (children self ! i)) @ map serialized_guide g1)])"
    by (simp add: rewrite_guides_cases Some)
  have found: "first_tagged ''a:avLst'' (children s1) = Some i"
    using i first_tagged_Some [OF Some] by (simp add: s1 first_tagged_update Some)
  show ?thesis
    using i
    by (simp add: rewrite_guides_cases [of s1] found rewrite_guides_cases [of self] Some)
       (simp add: s1)
qed

lemma gd_after_rewrite:
  assumes "rewrite_guides self guides = Inr s"
  shows "map (node_at s) (gd s) = map (\<lambda>g. Some (serialized_guide g)) guides"
proof (cases "first_tagged ''a:avLst'' (children self)")
  case None
  then have absent: "''a:avLst'' \<notin> tag ` set (children self)"
    by (simp add: first_tagged_None)
  from assms have s: "s = Elem (tag self) (attrib self)
      (children self @ [Elem ''a:avLst'' [] (map serialized_guide guides)])"
    by (simp add: rewrite_guides_cases None)
  have found: "first_tagged ''a:avLst'' (children s) = Some (length (children self))"
    using absent by (simp add: s first_tagged_split)
  show ?thesis
    by (simp add: gd_contents found) (simp add: s o_def)
next
  case (Some i)
  from first_tagged_Some [OF Some] have i: "i < length (children self)" by simp
  from assms have s: "s = Elem (tag self) (attrib self)
      ((children self)[i := Elem ''a:avLst'' (attrib (children self ! i))
         (filter (\<lambda>c. tag c \<noteq> ''a:gd'') (children (children self ! i)) @ map serialized_guide guides)])"
    by (simp add: rewrite_guides_cases Some)
  have found: "first_tagged ''a:avLst'' (children s) = Some i"
    using i first_tagged_Some [OF Some] by (simp add: s first_tagged_update Some)
  show ?thesis
    using i by (simp add: gd_contents found) (simp add: s o_def)
qed

text \<open>
  C3. For every preset geometry element and guide lists \<open>g1\<close>, \<open>g2\<close>,
  \<^verbatim>\<open>rewrite_guides\<close> with \<open>g1\<close> and then with \<open>g2\<close> raises nothing and leaves the
  tree that \<^verbatim>\<open>rewrite_guides\<close> with \<open>g2\<close> alone leaves: nothing of \<open>g1\<close> stays. The
  guides the \<^verbatim>\<open>gd\<close> property reads afterwards are the entries of \<open>g2\<close> in order, each
  an \<^verbatim>\<open>a:gd\<close> element with the attributes \<^verbatim>\<open>name\<close> and \<^verbatim>\<open>fmla = val <value>\<close>. When
  the element had no guide list container, one is appended after its children, so it is
  the sole child when the element had no child (the schema allows no other child); when
  it had one, the first container keeps its attributes and its children that are not
  guides, followed by the new guides.
\<close>

theorem rewrite_guides_round_trip:
  "\<exists>s1 s2. rewrite_guides self g1 = Inr s1 \<and> rewrite_guides s1 g2 = Inr s2
     \<and> rewrite_guides self g2 = Inr s2
     \<and> map (node_at s2) (gd s2) = map (\<lambda>g. Some (serialized_guide g)) g2
     \<and> (''a:avLst'' \<notin> tag ` set (children self) \<longrightarrow>
          children s2 = children self @ [Elem ''a:avLst'' [] (map serialized_guide g2)])
     \<and> (children self = [] \<longrightarrow> children s2 = [Elem ''a:avLst'' [] (map serialized_guide g2)])
     \<and> (\<forall>pre c post.
          children self = pre @ c # post \<and> tag c = ''a:avLst'' \<and> ''a:avLst'' \<notin> tag ` set pre \<longrightarrow>
          children s2 =
            pre @ Elem ''a:avLst'' (attrib c)
                    (filter (\<lambda>e. tag e \<noteq> ''a:gd'') (children c) @ map serialized_guide g2) # post)"
proof -
  obtain s1 where s1: "rewrite_guides self g1 = Inr s1"
    by (simp add: rewrite_guides_cases)
  obtain s2 where s2: "rewrite_guides self g2 = Inr s2"
    by (simp add: rewrite_guides_cases)
  have twice: "rewrite_guides s1 g2 = Inr s2"
    using rewrite_guides_twice [OF s1] s2 by simp
  have absent: "children s2 = children self @ [Elem ''a:avLst'' [] (map serialized_guide g2)]"
    if "''a:avLst'' \<notin> tag ` set (children self)"
    using s2 that by (auto simp: rewrite_guides_absent)
  have empty: "children s2 = [Elem ''a:avLst'' [] (map serialized_guide g2)]"
    if "children self = []"
    using absent that by simp
  have present: "children s2 =
      pre @ Elem ''a:avLst'' (attrib c)
              (filter (\<lambda>e. tag e \<noteq> ''a:gd'') (children c) @ map serialized_guide g2) # post"
    if "children self = pre @ c # post" "tag c = ''a:avLst''" "''a:avLst'' \<notin> tag ` set pre"
    for pre c post
  proof -
    have "first_tagged ''a:avLst'' (children self) = Some (length pre)"
      using that by (simp add: first_tagged_split)
    with s2 that(1) show ?thesis
      by (auto simp: rewrite_guides_cases)
  qed
  from s1 s2 twice gd_after_rewrite [OF s2] absent empty present show ?thesis
    by blast
qed

theorem rewrite_guides_round_trip_witness:
  "rewrite_guides (Elem ''a:prstGeom'' [(''prst'', ''roundRect'')] []) [(''adj'', 16667)]
     = Inr (Elem ''a:prstGeom'' [(''prst'', ''roundRect'')]
         [Elem ''a:avLst'' [] [Elem ''a:gd'' [(''name'', ''adj''), (''fmla'', ''val 16667'')] []]])
   \<and> rewrite_guides
       (Elem ''a:prstGeom'' [(''prst'', ''roundRect'')]
         [Elem ''a:avLst'' [] [Elem ''a:gd'' [(''name'', ''adj''), (''fmla'', ''val 16667'')] []]])
       [(''adj1'', 25), (''adj2'', - 7)]
     = Inr (Elem ''a:prstGeom'' [(''prst'', ''roundRect'')]
         [Elem ''a:avLst'' []
           [Elem ''a:gd'' [(''name'', ''adj1''), (''fmla'', ''val 25'')] [],
            Elem ''a:gd'' [(''name'', ''adj2''), (''fmla'', ''val -7'')] []]])"
proof -
  let ?self = "Elem ''a:prstGeom'' [(''prst'', ''roundRect'')] []"
  let ?g1 = "[(''adj'', 16667 :: int)]"
  let ?g2 = "[(''adj1'', 25 :: int), (''adj2'', - 7)]"
  from rewrite_guides_round_trip [of ?self ?g1 ?g2] obtain s1 s2 where
    first: "rewrite_guides ?self ?g1 = Inr s1"
    and second: "rewrite_guides s1 ?g2 = Inr s2"
    and alone: "rewrite_guides ?self ?g2 = Inr s2"
    by blast
  have s1: "rewrite_guides ?self ?g1 = Inr (Elem ''a:prstGeom'' [(''prst'', ''roundRect'')]
         [Elem ''a:avLst'' [] [Elem ''a:gd'' [(''name'', ''adj''), (''fmla'', ''val 16667'')] []]])"
    by (simp add: rewrite_guides_cases serialized_guide_def format_d_def decimal.simps
          digit_char_def)
  have s2: "rewrite_guides ?self ?g2 = Inr (Elem ''a:prstGeom'' [(''prst'', ''roundRect'')]
         [Elem ''a:avLst'' []
           [Elem ''a:gd'' [(''name'', ''adj1''), (''fmla'', ''val 25'')] [],
            Elem ''a:gd'' [(''name'', ''adj2''), (''fmla'', ''val -7'')] []]])"
    by (simp add: rewrite_guides_cases serialized_guide_def format_d_def decimal.simps
          digit_char_def)
  from first s1 second alone s2 show ?thesis by simp
qed

section \<open>Properties of the shape element\<close>

lemma update_at_append: "update_at (p @ q) f t = update_at p (update_at q f) t"
  by (induction p arbitrary: t) simp_all

lemma node_at_append:
  "node_at t (p @ q) = (case node_at t p of None \<Rightarrow> None | Some e \<Rightarrow> node_at e q)"
  by (induction p arbitrary: t) simp_all

lemma node_at_update_at: "node_at (update_at p f t) p = map_option f (node_at t p)"
  by (induction p arbitrary: t) simp_all

lemma update_at_const:
  "node_at t p = Some e \<Longrightarrow> update_at p f t = update_at p (\<lambda>_. f e) t"
  by (induction p arbitrary: t) (auto split: if_splits)

lemma update_at_twice:
  "update_at p (\<lambda>_. x) (update_at p (\<lambda>_. y) t) = update_at p (\<lambda>_. x) t"
  by (induction p arbitrary: t) simp_all

lemma length_children_update_at:
  "p \<noteq> [] \<Longrightarrow> length (children (update_at p f t)) = length (children t)"
  by (cases p) simp_all

lemma tag_deannotate [simp]: "tag (deannotate t) = tag t"
  by (cases t) simp

lemma children_deannotate: "children (deannotate t) = map deannotate (children t)"
  by (cases t) simp


lemma objectify_getattr_Inr:
  assumes "objectify_getattr root r t = Inr r'"
  shows "\<exists>parent i. node_at root r = Some parent \<and> first_tagged t (children parent) = Some i
            \<and> r' = r @ [i] \<and> node_at root r' = Some (children parent ! i)
            \<and> tag (children parent ! i) = t"
proof -
  from assms obtain i where i: "first_tagged t (children_at root r) = Some i" and r': "r' = r @ [i]"
    by (auto simp: objectify_getattr_def split: option.splits)
  from i obtain parent where parent: "node_at root r = Some parent"
    by (cases "node_at root r") (auto simp: children_at_def)
  with i have found: "first_tagged t (children parent) = Some i"
    by (simp add: children_at_def)
  from first_tagged_Some [OF found] parent show ?thesis
    by (simp add: r' found node_at_append)
qed


lemma new_placeholder_sp_tail:
  "new_placeholder_sp parse_other c id' name ph_type orient sz idx =
     (case parse_ph_sp_tmpl parse_other id' name of
        Inl e \<Rightarrow> Inl e
      | Inr sp0 \<Rightarrow>
     (case objectify_path sp0 [] [''p:nvSpPr'', ''p:cNvSpPr''] of
        Inl e \<Rightarrow> Inl (LookupFailed e)
      | Inr cNvSpPr \<Rightarrow>
     (case objectify_path (snd (SubElement sp0 cNvSpPr ''a:spLocks'')) []
             [''p:nvSpPr'', ''p:cNvSpPr'', qn ''a:spLocks''] of
        Inl e \<Rightarrow> Inl (LookupFailed e)
      | Inr spLocks \<Rightarrow>
     (case objectify_path
             (etree_set (snd (SubElement sp0 cNvSpPr ''a:spLocks'')) spLocks ''noGrp'' ''1'') []
             [''p:nvSpPr'', ''p:nvPr''] of
        Inl e \<Rightarrow> Inl (LookupFailed e)
      | Inr nvPr \<Rightarrow>
          Inr (placeholder_tail c
                 (etree_set (snd (SubElement sp0 cNvSpPr ''a:spLocks'')) spLocks ''noGrp'' ''1'')
                 nvPr ph_type orient sz idx)))))"
  unfolding new_placeholder_sp_def placeholder_tail_def Let_def split_def ..


lemma alist_update_fresh:
  "k \<notin> fst ` set al \<Longrightarrow> AList.update k v al = al @ [(k, v)]"
  by (induction al) auto

lemma placeholder_tail_eq:
  assumes valid: "node_at sp2 nvPr = Some e"
  shows "placeholder_tail c sp2 nvPr ph_type orient sz idx =
     deannotate
       (if ph_type \<in> set [PH_TYPE_TITLE c, PH_TYPE_CTRTITLE c, PH_TYPE_SUBTITLE c,
                             PH_TYPE_BODY c, PH_TYPE_OBJ c]
        then snd (etree_append
                    (update_at nvPr
                       (\<lambda>_. Elem (tag e) (attrib e)
                              (children e @ [Elem ''p:ph'' (sparse_attrib c ph_type orient sz idx) []]))
                       sp2)
                    [] new_txBody)
        else update_at nvPr
               (\<lambda>_. Elem (tag e) (attrib e)
                      (children e @ [Elem ''p:ph'' (sparse_attrib c ph_type orient sz idx) []]))
               sp2)"
proof -
  define n where "n = length (children e)"
  define W where "W al = update_at nvPr
      (\<lambda>_. Elem (tag e) (attrib e) (children e @ [Elem ''p:ph'' al []])) sp2" for al
  have sub: "SubElement sp2 nvPr ''p:ph'' = (nvPr @ [n], W [])"
    using valid update_at_const [OF valid]
    by (simp add: SubElement_def etree_append_def children_at_def Element_def W_def n_def)
  have at_W: "node_at (W al) nvPr = Some (Elem (tag e) (attrib e) (children e @ [Elem ''p:ph'' al []]))"
    for al
    by (simp add: W_def node_at_update_at valid)
  have set_ph: "etree_set (W al) (nvPr @ [n]) k v = W (AList.update k v al)" for al k v
  proof -
    let ?S = "\<lambda>e. Elem (tag e) (AList.update k v (attrib e)) (children e)"
    have "etree_set (W al) (nvPr @ [n]) k v = update_at nvPr (update_at [n] ?S) (W al)"
      by (simp add: etree_set_def update_at_append)
    also have "\<dots> = update_at nvPr
        (\<lambda>_. update_at [n] ?S (Elem (tag e) (attrib e) (children e @ [Elem ''p:ph'' al []]))) (W al)"
      by (rule update_at_const [OF at_W])
    also have "\<dots> = update_at nvPr
        (\<lambda>_. update_at [n] ?S (Elem (tag e) (attrib e) (children e @ [Elem ''p:ph'' al []]))) sp2"
      unfolding W_def by (rule update_at_twice)
    also have "update_at [n] ?S (Elem (tag e) (attrib e) (children e @ [Elem ''p:ph'' al []]))
        = Elem (tag e) (attrib e) (children e @ [Elem ''p:ph'' (AList.update k v al) []])"
      by (simp add: n_def)
    finally show ?thesis by (simp add: W_def)
  qed
  define t4 where "t4 =
    (if ph_type \<noteq> PH_TYPE_OBJ c then etree_set (W []) (nvPr @ [n]) ''type'' ph_type else W [])"
  define t5 where "t5 =
    (if orient \<noteq> PH_ORIENT_HORZ c then etree_set t4 (nvPr @ [n]) ''orient'' orient else t4)"
  define t6 where "t6 = (if sz \<noteq> PH_SZ_FULL c then etree_set t5 (nvPr @ [n]) ''sz'' sz else t5)"
  define t7 where "t7 =
    (if idx \<noteq> 0 then etree_set t6 (nvPr @ [n]) ''idx'' (format_d idx) else t6)"
  define a4 where "a4 = (if ph_type \<noteq> PH_TYPE_OBJ c then [(''type'', ph_type)] else [])"
  define a5 where "a5 = a4 @ (if orient \<noteq> PH_ORIENT_HORZ c then [(''orient'', orient)] else [])"
  define a6 where "a6 = a5 @ (if sz \<noteq> PH_SZ_FULL c then [(''sz'', sz)] else [])"
  define a7 where "a7 = a6 @ (if idx \<noteq> 0 then [(''idx'', format_d idx)] else [])"
  have start: "placeholder_tail c sp2 nvPr ph_type orient sz idx =
      deannotate
        (if ph_type \<in> set [PH_TYPE_TITLE c, PH_TYPE_CTRTITLE c, PH_TYPE_SUBTITLE c,
                              PH_TYPE_BODY c, PH_TYPE_OBJ c]
         then snd (etree_append t7 [] new_txBody) else t7)"
    unfolding t7_def t6_def t5_def t4_def
    by (simp only: placeholder_tail_def Let_def sub prod.case)
  have keys4: "fst ` set a4 \<subseteq> {''type''}"
    by (cases "ph_type = PH_TYPE_OBJ c") (simp_all add: a4_def)
  have keys5: "fst ` set a5 \<subseteq> {''type'', ''orient''}"
    using keys4 by (cases "orient = PH_ORIENT_HORZ c") (auto simp: a5_def)
  have keys6: "fst ` set a6 \<subseteq> {''type'', ''orient'', ''sz''}"
    using keys5 by (cases "sz = PH_SZ_FULL c") (auto simp: a6_def)
  have new5: "''orient'' \<notin> fst ` set a4" using keys4 by auto
  have new6: "''sz'' \<notin> fst ` set a5" using keys5 by auto
  have new7: "''idx'' \<notin> fst ` set a6" using keys6 by auto
  have t4: "t4 = W a4"
    by (simp add: t4_def a4_def set_ph)
  have t5: "t5 = W a5"
    unfolding t5_def t4 set_ph a5_def alist_update_fresh [OF new5] by simp
  have t6: "t6 = W a6"
    unfolding t6_def t5 set_ph a6_def alist_update_fresh [OF new6] by simp
  have t7: "t7 = W a7"
    unfolding t7_def t6 set_ph a7_def alist_update_fresh [OF new7] by simp
  have "a7 = sparse_attrib c ph_type orient sz idx"
    by (simp add: a7_def a6_def a5_def a4_def sparse_attrib_def)
  then show ?thesis
    unfolding start t7 W_def by simp
qed


lemma objectify_path_length:
  "objectify_path root r ts = Inr r' \<Longrightarrow> length r' = length r + length ts"
proof (induction ts arbitrary: r)
  case Nil
  then show ?case by simp
next
  case (Cons t ts)
  from Cons.prems obtain r1 where first: "objectify_getattr root r t = Inr r1"
    and rest: "objectify_path root r1 ts = Inr r'"
    by (auto split: sum.splits)
  from objectify_getattr_Inr [OF first] have "length r1 = Suc (length r)" by auto
  with Cons.IH [OF rest] show ?case by simp
qed

lemma objectify_path_two:
  assumes "objectify_path root [] [a, b] = Inr q"
  shows "\<exists>i m. first_tagged a (children root) = Some i
           \<and> first_tagged b (children (children root ! i)) = Some m
           \<and> q = [i, m] \<and> i < length (children root)
           \<and> m < length (children (children root ! i))
           \<and> node_at root q = Some (children (children root ! i) ! m)
           \<and> tag (children (children root ! i) ! m) = b"
proof -
  from assms obtain r1 where first: "objectify_getattr root [] a = Inr r1"
    and second: "objectify_getattr root r1 b = Inr q"
    by (auto split: sum.splits)
  from objectify_getattr_Inr [OF first] obtain i where
    i: "first_tagged a (children root) = Some i" and r1: "r1 = [i]"
    by auto
  from first_tagged_Some [OF i] have lt: "i < length (children root)" by simp
  from objectify_getattr_Inr [OF second] lt obtain m where
    m: "first_tagged b (children (children root ! i)) = Some m" and q: "q = [i, m]"
    by (auto simp: r1)
  from first_tagged_Some [OF m] lt i m q show ?thesis by simp
qed

lemma first_tagged_map_deannotate [simp]:
  "first_tagged t (map deannotate cs) = first_tagged t cs"
  by (induction cs) simp_all


lemma sparse_attrib_keys:
  "fst ` set (sparse_attrib c ph_type orient sz idx) \<subseteq> {''type'', ''orient'', ''sz'', ''idx''}"
  by (auto simp: sparse_attrib_def split: if_splits)

lemma deannotate_ph:
  "deannotate (Elem ''p:ph'' (sparse_attrib c ph_type orient sz idx) [])
     = Elem ''p:ph'' (sparse_attrib c ph_type orient sz idx) []"
proof -
  have "filter (\<lambda>kv. fst kv \<notin> set [''py:pytype'', ''xsi:type''])
          (sparse_attrib c ph_type orient sz idx) = sparse_attrib c ph_type orient sz idx"
    using sparse_attrib_keys [of c ph_type orient sz idx] by (auto simp: filter_id_conv)
  then show ?thesis by simp
qed

lemma deannotate_new_txBody: "deannotate new_txBody = new_txBody"
  by (simp add: new_txBody_def)

lemma new_placeholder_sp_returns:
  assumes "new_placeholder_sp parse_other c id' name ph_type orient sz idx = Inr sp"
  shows "\<exists>sp0 sp2 nvPr.
      parse_ph_sp_tmpl parse_other id' name = Inr sp0
    \<and> length (children sp2) = length (children sp0)
    \<and> objectify_path sp2 [] [''p:nvSpPr'', ''p:nvPr''] = Inr nvPr
    \<and> sp = placeholder_tail c sp2 nvPr ph_type orient sz idx"
proof -
  from assms obtain sp0 cNvSpPr spLocks nvPr where
    parsed: "parse_ph_sp_tmpl parse_other id' name = Inr sp0"
    and p0: "objectify_path sp0 [] [''p:nvSpPr'', ''p:cNvSpPr''] = Inr cNvSpPr"
    and p1: "objectify_path (snd (SubElement sp0 cNvSpPr ''a:spLocks'')) []
               [''p:nvSpPr'', ''p:cNvSpPr'', qn ''a:spLocks''] = Inr spLocks"
    and p2: "objectify_path
               (etree_set (snd (SubElement sp0 cNvSpPr ''a:spLocks'')) spLocks ''noGrp'' ''1'') []
               [''p:nvSpPr'', ''p:nvPr''] = Inr nvPr"
    and sp: "sp = placeholder_tail c
               (etree_set (snd (SubElement sp0 cNvSpPr ''a:spLocks'')) spLocks ''noGrp'' ''1'')
               nvPr ph_type orient sz idx"
    unfolding new_placeholder_sp_tail
    by (auto simp del: objectify_path.simps split: sum.splits)
  from objectify_path_length [OF p0] have "cNvSpPr \<noteq> []" by auto
  moreover from objectify_path_length [OF p1] have "spLocks \<noteq> []" by auto
  ultimately have "length (children
      (etree_set (snd (SubElement sp0 cNvSpPr ''a:spLocks'')) spLocks ''noGrp'' ''1''))
      = length (children sp0)"
    by (simp add: etree_set_def SubElement_def etree_append_def length_children_update_at)
  with parsed p2 sp show ?thesis by blast
qed

lemma placeholder_tail_children:
  assumes "objectify_path sp2 [] [''p:nvSpPr'', ''p:nvPr''] = Inr nvPr"
  shows "\<exists>before. children (placeholder_tail c sp2 nvPr ph_type orient sz idx) =
           before @ (if ph_type \<in> {PH_TYPE_TITLE c, PH_TYPE_CTRTITLE c, PH_TYPE_SUBTITLE c,
                                    PH_TYPE_BODY c, PH_TYPE_OBJ c}
                     then [new_txBody] else [])
         \<and> length before = length (children sp2)"
proof -
  from objectify_path_two [OF assms] obtain e where valid: "node_at sp2 nvPr = Some e"
    and ne: "nvPr \<noteq> []"
    by auto
  define W where "W = update_at nvPr
      (\<lambda>_. Elem (tag e) (attrib e)
             (children e @ [Elem ''p:ph'' (sparse_attrib c ph_type orient sz idx) []])) sp2"
  have len: "length (map deannotate (children W)) = length (children sp2)"
    using ne by (simp add: W_def length_children_update_at)
  have "children (placeholder_tail c sp2 nvPr ph_type orient sz idx) =
      map deannotate (children W)
      @ (if ph_type \<in> {PH_TYPE_TITLE c, PH_TYPE_CTRTITLE c, PH_TYPE_SUBTITLE c,
                         PH_TYPE_BODY c, PH_TYPE_OBJ c}
         then [new_txBody] else [])"
    unfolding placeholder_tail_eq [OF valid] W_def [symmetric]
    by (simp add: children_deannotate etree_append_def deannotate_new_txBody)
  with len show ?thesis by blast
qed





lemma new_placeholder_sp_plain:
  assumes "plain_name name"
  shows "new_placeholder_sp parse_other c id' name ph_type orient sz idx =
     Inr (placeholder_shape id' name (sparse_attrib c ph_type orient sz idx)
       (if ph_type \<in> set [PH_TYPE_TITLE c, PH_TYPE_CTRTITLE c, PH_TYPE_SUBTITLE c,
                              PH_TYPE_BODY c, PH_TYPE_OBJ c]
        then [new_txBody] else []))"
proof -
  define sp1 where "sp1 = Elem ''p:sp'' []
       [Elem ''p:nvSpPr'' []
          [Elem ''p:cNvPr'' [(''id'', format_d id'), (''name'', name)] [],
           Elem ''p:cNvSpPr'' [] [Elem ''a:spLocks'' [] []],
           Elem ''p:nvPr'' [] []],
        Elem ''p:spPr'' [] []]"
  define sp2 where "sp2 = Elem ''p:sp'' []
       [Elem ''p:nvSpPr'' []
          [Elem ''p:cNvPr'' [(''id'', format_d id'), (''name'', name)] [],
           Elem ''p:cNvSpPr'' [] [Elem ''a:spLocks'' [(''noGrp'', ''1'')] []],
           Elem ''p:nvPr'' [] []],
        Elem ''p:spPr'' [] []]"
  have parsed: "parse_ph_sp_tmpl parse_other id' name = Inr (ph_sp_tmpl id' name)"
    using assms by (simp add: parse_ph_sp_tmpl_def)
  have p0: "objectify_path (ph_sp_tmpl id' name) [] [''p:nvSpPr'', ''p:cNvSpPr''] = Inr [0, 1]"
    by (simp add: ph_sp_tmpl_def objectify_getattr_def children_at_def)
  have s1: "snd (SubElement (ph_sp_tmpl id' name) [0, 1] ''a:spLocks'') = sp1"
    by (simp add: ph_sp_tmpl_def sp1_def SubElement_def etree_append_def Element_def)
  have p1: "objectify_path sp1 [] [''p:nvSpPr'', ''p:cNvSpPr'', qn ''a:spLocks''] = Inr [0, 1, 0]"
    by (simp add: sp1_def objectify_getattr_def children_at_def qn_def)
  have s2: "etree_set sp1 [0, 1, 0] ''noGrp'' ''1'' = sp2"
    by (simp add: sp1_def sp2_def etree_set_def)
  have p2: "objectify_path sp2 [] [''p:nvSpPr'', ''p:nvPr''] = Inr [0, 2]"
    by (simp add: sp2_def objectify_getattr_def children_at_def)
  have valid: "node_at sp2 [0, 2] = Some (Elem ''p:nvPr'' [] [])"
    by (simp add: sp2_def)
  have built: "new_placeholder_sp parse_other c id' name ph_type orient sz idx =
      Inr (placeholder_tail c sp2 [0, 2] ph_type orient sz idx)"
    by (simp only: new_placeholder_sp_tail parsed p0 s1 p1 s2 p2 sum.case)
  have W: "update_at [0, 2]
      (\<lambda>_. Elem (tag (Elem ''p:nvPr'' [] [])) (attrib (Elem ''p:nvPr'' [] []))
             (children (Elem ''p:nvPr'' [] [])
              @ [Elem ''p:ph'' (sparse_attrib c ph_type orient sz idx) []])) sp2
      = placeholder_shape id' name (sparse_attrib c ph_type orient sz idx) []"
    by (simp add: sp2_def placeholder_shape_def)
  have appended: "snd (etree_append (placeholder_shape id' name al []) [] b)
      = placeholder_shape id' name al [b]" for al b
    by (simp add: placeholder_shape_def etree_append_def)
  have clean: "deannotate (placeholder_shape id' name (sparse_attrib c ph_type orient sz idx) bodies)
      = placeholder_shape id' name (sparse_attrib c ph_type orient sz idx) (map deannotate bodies)"
    for bodies
    using deannotate_ph [of c ph_type orient sz idx]
    by (simp add: placeholder_shape_def)
  show ?thesis
    unfolding built placeholder_tail_eq [OF valid] W
    by (simp add: appended clean deannotate_new_txBody)
qed

lemma textbox_value:
  assumes "objectify_path self [] [''p:nvSpPr'', ''p:cNvSpPr''] = Inr cNvSpPr"
  shows "is_textbox self =
     Inr (etree_get self cNvSpPr ''txBox'' = Some ''true'' \<or> etree_get self cNvSpPr ''txBox'' = Some ''1'')"
  using assms by (auto simp: is_textbox_def Let_def)

lemma autoshape_value:
  assumes "objectify_getattr self [] ''p:spPr'' = Inr spPr"
    and "objectify_path self [] [''p:nvSpPr'', ''p:cNvSpPr''] = Inr cNvSpPr"
  shows "is_autoshape self =
     Inr (child self spPr ''a:prstGeom'' \<noteq> None
          \<and> etree_get self cNvSpPr ''txBox'' \<noteq> Some ''true''
          \<and> etree_get self cNvSpPr ''txBox'' \<noteq> Some ''1'')"
  using assms by (auto simp: is_autoshape_def Let_def split: option.splits)

lemma autoshape_True_iff:
  "is_autoshape self = Inr True \<longleftrightarrow>
     (\<exists>g. prstGeom self = Inr (Some g)) \<and> is_textbox self = Inr False"
  by (auto simp: is_autoshape_def is_textbox_def prstGeom_def Let_def
        split: sum.splits option.splits if_splits)

lemma textbox_True_iff:
  "is_textbox self = Inr True \<longleftrightarrow>
     (\<exists>cNvSpPr. objectify_path self [] [''p:nvSpPr'', ''p:cNvSpPr''] = Inr cNvSpPr
        \<and> etree_get self cNvSpPr ''txBox'' \<in> {Some ''true'', Some ''1''})"
  by (auto simp: is_textbox_def Let_def split: sum.splits if_splits)

lemma gd_absent: "''a:avLst'' \<notin> tag ` set (children self) \<Longrightarrow> gd self = []"
  by (simp add: gd_eq first_tagged_None [THEN iffD2])

lemma prst_absent:
  assumes "objectify_getattr self [] ''p:spPr'' = Inr spPr"
    and "''a:prstGeom'' \<notin> tag ` set (children_at self spPr)"
  shows "prst self = Inr None"
  using assms by (simp add: prst_def child_def etree_find_def first_tagged_None [THEN iffD2])

text \<open>
  C5. \<^verbatim>\<open>is_autoshape\<close> returns true exactly when the properties block has a preset
  geometry and \<^verbatim>\<open>is_textbox\<close> returns false; \<^verbatim>\<open>is_textbox\<close> returns true exactly when
  the \<^verbatim>\<open>txBox\<close> attribute of \<^verbatim>\<open>cNvSpPr\<close> is \<^verbatim>\<open>true\<close> or \<^verbatim>\<open>1\<close>; the two are never
  both true. On a shape that has its properties block and its \<^verbatim>\<open>nvSpPr/cNvSpPr\<close>
  block both return a value, so a shape with a preset geometry and the flag is a text box
  and not an autoshape.
\<close>

theorem shape_classification:
  "(is_autoshape self = Inr True \<longleftrightarrow>
      (\<exists>g. prstGeom self = Inr (Some g)) \<and> is_textbox self = Inr False)
   \<and> (is_textbox self = Inr True \<longleftrightarrow>
      (\<exists>cNvSpPr. objectify_path self [] [''p:nvSpPr'', ''p:cNvSpPr''] = Inr cNvSpPr
         \<and> etree_get self cNvSpPr ''txBox'' \<in> {Some ''true'', Some ''1''}))
   \<and> \<not> (is_autoshape self = Inr True \<and> is_textbox self = Inr True)
   \<and> (\<forall>spPr cNvSpPr.
         objectify_getattr self [] ''p:spPr'' = Inr spPr
         \<and> objectify_path self [] [''p:nvSpPr'', ''p:cNvSpPr''] = Inr cNvSpPr \<longrightarrow>
         is_textbox self = Inr (etree_get self cNvSpPr ''txBox'' \<in> {Some ''true'', Some ''1''})
         \<and> is_autoshape self =
             Inr (child self spPr ''a:prstGeom'' \<noteq> None
                  \<and> etree_get self cNvSpPr ''txBox'' \<notin> {Some ''true'', Some ''1''}))"
proof -
  have "\<not> (is_autoshape self = Inr True \<and> is_textbox self = Inr True)"
    by (auto simp: autoshape_True_iff)
  moreover have "is_textbox self = Inr (etree_get self cNvSpPr ''txBox'' \<in> {Some ''true'', Some ''1''})
         \<and> is_autoshape self =
             Inr (child self spPr ''a:prstGeom'' \<noteq> None
                  \<and> etree_get self cNvSpPr ''txBox'' \<notin> {Some ''true'', Some ''1''})"
    if "objectify_getattr self [] ''p:spPr'' = Inr spPr"
      and "objectify_path self [] [''p:nvSpPr'', ''p:cNvSpPr''] = Inr cNvSpPr"
    for spPr cNvSpPr
    using textbox_value [OF that(2)] autoshape_value [OF that] by simp
  ultimately show ?thesis
    using autoshape_True_iff [of self] textbox_True_iff [of self] by blast
qed

theorem shape_classification_witness:
  "is_textbox (Elem ''p:sp'' []
      [Elem ''p:nvSpPr'' []
         [Elem ''p:cNvPr'' [(''id'', ''3''), (''name'', ''TextBox 2'')] [],
          Elem ''p:cNvSpPr'' [(''txBox'', ''1'')] [],
          Elem ''p:nvPr'' [] []],
       Elem ''p:spPr'' []
         [Elem ''a:xfrm'' [] [], Elem ''a:prstGeom'' [(''prst'', ''rect'')] [Elem ''a:avLst'' [] []],
          Elem ''a:noFill'' [] []]]) = Inr True
   \<and> prstGeom (Elem ''p:sp'' []
      [Elem ''p:nvSpPr'' []
         [Elem ''p:cNvPr'' [(''id'', ''3''), (''name'', ''TextBox 2'')] [],
          Elem ''p:cNvSpPr'' [(''txBox'', ''1'')] [],
          Elem ''p:nvPr'' [] []],
       Elem ''p:spPr'' []
         [Elem ''a:xfrm'' [] [], Elem ''a:prstGeom'' [(''prst'', ''rect'')] [Elem ''a:avLst'' [] []],
          Elem ''a:noFill'' [] []]]) = Inr (Some [1, 1])
   \<and> is_autoshape (Elem ''p:sp'' []
      [Elem ''p:nvSpPr'' []
         [Elem ''p:cNvPr'' [(''id'', ''3''), (''name'', ''TextBox 2'')] [],
          Elem ''p:cNvSpPr'' [(''txBox'', ''1'')] [],
          Elem ''p:nvPr'' [] []],
       Elem ''p:spPr'' []
         [Elem ''a:xfrm'' [] [], Elem ''a:prstGeom'' [(''prst'', ''rect'')] [Elem ''a:avLst'' [] []],
          Elem ''a:noFill'' [] []]]) = Inr False"
proof -
  let ?sp = "Elem ''p:sp'' []
      [Elem ''p:nvSpPr'' []
         [Elem ''p:cNvPr'' [(''id'', ''3''), (''name'', ''TextBox 2'')] [],
          Elem ''p:cNvSpPr'' [(''txBox'', ''1'')] [],
          Elem ''p:nvPr'' [] []],
       Elem ''p:spPr'' []
         [Elem ''a:xfrm'' [] [], Elem ''a:prstGeom'' [(''prst'', ''rect'')] [Elem ''a:avLst'' [] []],
          Elem ''a:noFill'' [] []]]"
  have flag: "is_textbox ?sp = Inr True"
    by (simp add: is_textbox_def objectify_getattr_def children_at_def etree_get_def)
  have geom: "prstGeom ?sp = Inr (Some [1, 1])"
    by (simp add: prstGeom_def objectify_getattr_def children_at_def child_def etree_find_def)
  have "is_autoshape ?sp = Inr False"
    by (simp add: is_autoshape_def objectify_getattr_def children_at_def child_def
          etree_find_def etree_get_def)
  with flag geom shape_classification [of ?sp] show ?thesis by blast
qed

text \<open>
  C10. The test of the text box flag is equality of strings. On a shape with its
  \<^verbatim>\<open>nvSpPr/cNvSpPr\<close> block, \<^verbatim>\<open>is_textbox\<close> returns whether the \<^verbatim>\<open>txBox\<close> attribute is
  the string \<^verbatim>\<open>1\<close> or the string \<^verbatim>\<open>true\<close>. With any other value, such as \<^verbatim>\<open>TRUE\<close>,
  \<^verbatim>\<open>True\<close>, \<^verbatim>\<open>0\<close> or \<^verbatim>\<open>false\<close>, and with no \<^verbatim>\<open>txBox\<close> attribute, it returns false,
  and \<^verbatim>\<open>is_autoshape\<close> returns true when the properties block has a preset geometry.
\<close>

theorem textbox_flag_is_exact:
  assumes "objectify_path self [] [''p:nvSpPr'', ''p:cNvSpPr''] = Inr cNvSpPr"
  shows "is_textbox self =
           Inr (etree_get self cNvSpPr ''txBox'' = Some ''1''
                \<or> etree_get self cNvSpPr ''txBox'' = Some ''true'')
   \<and> (etree_get self cNvSpPr ''txBox''
         \<in> {None, Some ''TRUE'', Some ''True'', Some ''0'', Some ''false''} \<longrightarrow>
       is_textbox self = Inr False
       \<and> (\<forall>spPr g. objectify_getattr self [] ''p:spPr'' = Inr spPr
             \<and> child self spPr ''a:prstGeom'' = Some g \<longrightarrow>
             is_autoshape self = Inr True))
   \<and> (etree_get self cNvSpPr ''txBox'' \<noteq> Some ''1''
       \<and> etree_get self cNvSpPr ''txBox'' \<noteq> Some ''true'' \<longrightarrow>
       is_textbox self = Inr False
       \<and> (\<forall>spPr g. objectify_getattr self [] ''p:spPr'' = Inr spPr
             \<and> child self spPr ''a:prstGeom'' = Some g \<longrightarrow>
             is_autoshape self = Inr True))"
proof -
  have result: "is_textbox self =
           Inr (etree_get self cNvSpPr ''txBox'' = Some ''1''
                \<or> etree_get self cNvSpPr ''txBox'' = Some ''true'')"
    using textbox_value [OF assms] by (simp add: disj_commute)
  have other: "is_textbox self = Inr False
       \<and> (\<forall>spPr g. objectify_getattr self [] ''p:spPr'' = Inr spPr
             \<and> child self spPr ''a:prstGeom'' = Some g \<longrightarrow>
             is_autoshape self = Inr True)"
    if "etree_get self cNvSpPr ''txBox'' \<noteq> Some ''1''"
      and "etree_get self cNvSpPr ''txBox'' \<noteq> Some ''true''"
    using that result autoshape_value [OF _ assms] by simp
  have "etree_get self cNvSpPr ''txBox'' \<noteq> Some ''1''
       \<and> etree_get self cNvSpPr ''txBox'' \<noteq> Some ''true''"
    if "etree_get self cNvSpPr ''txBox''
         \<in> {None, Some ''TRUE'', Some ''True'', Some ''0'', Some ''false''}"
    using that by auto
  with result other show ?thesis by blast
qed

theorem textbox_flag_is_exact_witness:
  "objectify_path (Elem ''p:sp'' []
      [Elem ''p:nvSpPr'' []
         [Elem ''p:cNvPr'' [(''id'', ''4''), (''name'', ''Rectangle 3'')] [],
          Elem ''p:cNvSpPr'' [(''txBox'', ''TRUE'')] [],
          Elem ''p:nvPr'' [] []],
       Elem ''p:spPr'' []
         [Elem ''a:xfrm'' [] [], Elem ''a:prstGeom'' [(''prst'', ''rect'')] [Elem ''a:avLst'' [] []]]]) [] [''p:nvSpPr'', ''p:cNvSpPr''] = Inr [0, 1]
   \<and> etree_get (Elem ''p:sp'' []
      [Elem ''p:nvSpPr'' []
         [Elem ''p:cNvPr'' [(''id'', ''4''), (''name'', ''Rectangle 3'')] [],
          Elem ''p:cNvSpPr'' [(''txBox'', ''TRUE'')] [],
          Elem ''p:nvPr'' [] []],
       Elem ''p:spPr'' []
         [Elem ''a:xfrm'' [] [], Elem ''a:prstGeom'' [(''prst'', ''rect'')] [Elem ''a:avLst'' [] []]]]) [0, 1] ''txBox'' = Some ''TRUE''
   \<and> is_textbox (Elem ''p:sp'' []
      [Elem ''p:nvSpPr'' []
         [Elem ''p:cNvPr'' [(''id'', ''4''), (''name'', ''Rectangle 3'')] [],
          Elem ''p:cNvSpPr'' [(''txBox'', ''TRUE'')] [],
          Elem ''p:nvPr'' [] []],
       Elem ''p:spPr'' []
         [Elem ''a:xfrm'' [] [], Elem ''a:prstGeom'' [(''prst'', ''rect'')] [Elem ''a:avLst'' [] []]]]) = Inr False
   \<and> is_autoshape (Elem ''p:sp'' []
      [Elem ''p:nvSpPr'' []
         [Elem ''p:cNvPr'' [(''id'', ''4''), (''name'', ''Rectangle 3'')] [],
          Elem ''p:cNvSpPr'' [(''txBox'', ''TRUE'')] [],
          Elem ''p:nvPr'' [] []],
       Elem ''p:spPr'' []
         [Elem ''a:xfrm'' [] [], Elem ''a:prstGeom'' [(''prst'', ''rect'')] [Elem ''a:avLst'' [] []]]]) = Inr True"
proof -
  let ?sp = "Elem ''p:sp'' []
      [Elem ''p:nvSpPr'' []
         [Elem ''p:cNvPr'' [(''id'', ''4''), (''name'', ''Rectangle 3'')] [],
          Elem ''p:cNvSpPr'' [(''txBox'', ''TRUE'')] [],
          Elem ''p:nvPr'' [] []],
       Elem ''p:spPr'' []
         [Elem ''a:xfrm'' [] [], Elem ''a:prstGeom'' [(''prst'', ''rect'')] [Elem ''a:avLst'' [] []]]]"
  have path: "objectify_path ?sp [] [''p:nvSpPr'', ''p:cNvSpPr''] = Inr [0, 1]"
    by (simp add: objectify_getattr_def children_at_def)
  have flag: "etree_get ?sp [0, 1] ''txBox'' = Some ''TRUE''"
    by (simp add: etree_get_def)
  have spPr: "objectify_getattr ?sp [] ''p:spPr'' = Inr [1]"
    by (simp add: objectify_getattr_def children_at_def)
  have geom: "child ?sp [1] ''a:prstGeom'' = Some [1, 1]"
    by (simp add: child_def etree_find_def children_at_def)
  from textbox_flag_is_exact [OF path] flag spPr geom
  have "is_textbox ?sp = Inr False \<and> is_autoshape ?sp = Inr True"
    by simp
  with path flag show ?thesis by simp
qed




text \<open>
  C7. \<^verbatim>\<open>new_placeholder_sp\<close> appends the new empty text body exactly when the type is one
  of the title, centered title, subtitle, body and object types. Whenever the call
  returns a shape, for any name, the children of the shape are as many children as the
  parsed template has, followed by the new text body when the type is one of the five
  and by nothing otherwise. For every plain name the call returns the placeholder
  shape, which has a \<^verbatim>\<open>p:txBody\<close> child exactly when the type is one of the five.
\<close>

theorem text_body_iff_text_bearing_type:
  "(\<forall>sp. new_placeholder_sp parse_other c id' name ph_type orient sz idx = Inr sp \<longrightarrow>
      (\<exists>sp0 before.
          parse_ph_sp_tmpl parse_other id' name = Inr sp0
        \<and> length before = length (children sp0)
        \<and> children sp =
            before @ (if ph_type \<in> {PH_TYPE_TITLE c, PH_TYPE_CTRTITLE c, PH_TYPE_SUBTITLE c,
                                PH_TYPE_BODY c, PH_TYPE_OBJ c}
                      then [new_txBody] else [])))
   \<and> (plain_name name \<longrightarrow>
        (\<exists>ph_attrib.
           new_placeholder_sp parse_other c id' name ph_type orient sz idx
             = Inr (placeholder_shape id' name ph_attrib
                 (if ph_type \<in> {PH_TYPE_TITLE c, PH_TYPE_CTRTITLE c, PH_TYPE_SUBTITLE c,
                                PH_TYPE_BODY c, PH_TYPE_OBJ c}
                  then [new_txBody] else []))
           \<and> (''p:txBody'' \<in> tag ` set (children (placeholder_shape id' name ph_attrib
                 (if ph_type \<in> {PH_TYPE_TITLE c, PH_TYPE_CTRTITLE c, PH_TYPE_SUBTITLE c,
                                PH_TYPE_BODY c, PH_TYPE_OBJ c}
                  then [new_txBody] else [])))
               \<longleftrightarrow> ph_type \<in> {PH_TYPE_TITLE c, PH_TYPE_CTRTITLE c, PH_TYPE_SUBTITLE c,
                                PH_TYPE_BODY c, PH_TYPE_OBJ c})))"
proof -
  let ?text = "ph_type \<in> {PH_TYPE_TITLE c, PH_TYPE_CTRTITLE c, PH_TYPE_SUBTITLE c,
                                PH_TYPE_BODY c, PH_TYPE_OBJ c}"
  have same: "(ph_type \<in> set [PH_TYPE_TITLE c, PH_TYPE_CTRTITLE c, PH_TYPE_SUBTITLE c,
                              PH_TYPE_BODY c, PH_TYPE_OBJ c]) = ?text"
    by simp
  have returned: "\<exists>sp0 before.
          parse_ph_sp_tmpl parse_other id' name = Inr sp0
        \<and> length before = length (children sp0)
        \<and> children sp = before @ (if ?text then [new_txBody] else [])"
    if "new_placeholder_sp parse_other c id' name ph_type orient sz idx = Inr sp" for sp
  proof -
    from new_placeholder_sp_returns [OF that] obtain sp0 sp2 nvPr where
      parsed: "parse_ph_sp_tmpl parse_other id' name = Inr sp0"
      and len: "length (children sp2) = length (children sp0)"
      and path: "objectify_path sp2 [] [''p:nvSpPr'', ''p:nvPr''] = Inr nvPr"
      and sp: "sp = placeholder_tail c sp2 nvPr ph_type orient sz idx"
      by blast
    from placeholder_tail_children [OF path, of c ph_type orient sz idx] parsed len
    show ?thesis
      unfolding sp by auto
  qed
  have plain: "\<exists>ph_attrib.
           new_placeholder_sp parse_other c id' name ph_type orient sz idx
             = Inr (placeholder_shape id' name ph_attrib (if ?text then [new_txBody] else []))
           \<and> (''p:txBody'' \<in> tag ` set (children (placeholder_shape id' name ph_attrib
                 (if ?text then [new_txBody] else []))) \<longleftrightarrow> ?text)"
    if "plain_name name"
  proof -
    have built: "new_placeholder_sp parse_other c id' name ph_type orient sz idx
       = Inr (placeholder_shape id' name (sparse_attrib c ph_type orient sz idx)
           (if ?text then [new_txBody] else []))"
      unfolding new_placeholder_sp_plain [OF that] same ..
    have "''p:txBody'' \<in> tag ` set (children (placeholder_shape id' name
            (sparse_attrib c ph_type orient sz idx) (if ?text then [new_txBody] else [])))
          \<longleftrightarrow> ?text"
      by (cases ?text)
         (simp_all only: if_True if_False placeholder_shape_def new_txBody_def, simp_all)
    with built show ?thesis by blast
  qed
  from returned plain show ?thesis by blast
qed

theorem text_body_iff_text_bearing_type_witness:
  "plain_name ''Picture Placeholder 4'' \<and> plain_name ''Text Placeholder 2''
   \<and> new_placeholder_sp other_as_text pptx_spec 5 ''Picture Placeholder 4''
        ''pic'' ''horz'' ''full'' 13
     = Inr (placeholder_shape 5 ''Picture Placeholder 4'' [(''type'', ''pic''), (''idx'', ''13'')] [])
   \<and> ''p:txBody'' \<notin> tag ` set (children
        (placeholder_shape 5 ''Picture Placeholder 4'' [(''type'', ''pic''), (''idx'', ''13'')] []))
   \<and> new_placeholder_sp other_as_text pptx_spec 3 ''Text Placeholder 2''
        ''body'' ''horz'' ''full'' 1
     = Inr (placeholder_shape 3 ''Text Placeholder 2'' [(''type'', ''body''), (''idx'', ''1'')]
             [new_txBody])"
proof -
  have plain: "plain_name ''Picture Placeholder 4''" "plain_name ''Text Placeholder 2''"
    by (simp_all add: plain_name_def plain_char_def)
  from text_body_iff_text_bearing_type
         [of other_as_text pptx_spec 5 "''Picture Placeholder 4''" "''pic''"
             "''horz''" "''full''" 13]
    plain(1)
  obtain al where
    "new_placeholder_sp other_as_text pptx_spec 5 ''Picture Placeholder 4''
        ''pic'' ''horz'' ''full'' 13
       = Inr (placeholder_shape 5 ''Picture Placeholder 4'' al [])"
    by (auto simp: pptx_spec_def)
  moreover have
    "new_placeholder_sp other_as_text pptx_spec 5 ''Picture Placeholder 4''
        ''pic'' ''horz'' ''full'' 13
       = Inr (placeholder_shape 5 ''Picture Placeholder 4'' [(''type'', ''pic''), (''idx'', ''13'')] [])"
    by (simp add: new_placeholder_sp_plain [OF plain(1)] sparse_attrib_def pptx_spec_def
          format_d_def decimal.simps digit_char_def)
  moreover have
    "new_placeholder_sp other_as_text pptx_spec 3 ''Text Placeholder 2''
        ''body'' ''horz'' ''full'' 1
     = Inr (placeholder_shape 3 ''Text Placeholder 2'' [(''type'', ''body''), (''idx'', ''1'')]
             [new_txBody])"
    by (simp add: new_placeholder_sp_plain [OF plain(2)] sparse_attrib_def pptx_spec_def
          format_d_def decimal.simps digit_char_def)
  moreover have "''p:txBody'' \<notin> tag ` set (children
        (placeholder_shape 5 ''Picture Placeholder 4'' [(''type'', ''pic''), (''idx'', ''13'')] []))"
    by (simp add: placeholder_shape_def)
  ultimately show ?thesis using plain by simp
qed

text \<open>
  C8. Missing optional elements are read as absent values and raise nothing: \<^verbatim>\<open>gd\<close>
  gives the empty sequence on a preset geometry with no \<^verbatim>\<open>a:avLst\<close> child,
  \<^verbatim>\<open>solidFill\<close> gives \<^verbatim>\<open>None\<close> on a properties element with no \<^verbatim>\<open>a:solidFill\<close> child,
  and \<^verbatim>\<open>prst\<close> gives \<^verbatim>\<open>None\<close> on a shape whose properties block has no
  \<^verbatim>\<open>a:prstGeom\<close> child. The three only read the tree: they return no new tree.
\<close>

theorem absent_elements_are_values:
  "(''a:avLst'' \<notin> tag ` set (children geom) \<longrightarrow> gd geom = [])
   \<and> (''a:solidFill'' \<notin> tag ` set (children props) \<longrightarrow> solidFill props = None)
   \<and> (\<forall>spPr. objectify_getattr sp [] ''p:spPr'' = Inr spPr
         \<and> ''a:prstGeom'' \<notin> tag ` set (children_at sp spPr) \<longrightarrow> prst sp = Inr None)"
  using gd_absent [of geom] prst_absent [of sp] by (simp add: solidFill_eq)

theorem absent_elements_are_values_witness:
  "gd (Elem ''a:prstGeom'' [(''prst'', ''rect'')] []) = []
   \<and> solidFill (Elem ''p:spPr'' [] [Elem ''a:xfrm'' [] [], Elem ''a:ln'' [] []]) = None
   \<and> objectify_getattr (ph_sp_tmpl 2 ''Title 1'') [] ''p:spPr'' = Inr [1]
   \<and> prst (ph_sp_tmpl 2 ''Title 1'') = Inr None"
proof -
  have "objectify_getattr (ph_sp_tmpl 2 ''Title 1'') [] ''p:spPr'' = Inr [1]"
    by (simp add: ph_sp_tmpl_def objectify_getattr_def children_at_def)
  moreover have "''a:prstGeom'' \<notin> tag ` set (children_at (ph_sp_tmpl 2 ''Title 1'') [1])"
    by (simp add: ph_sp_tmpl_def children_at_def)
  ultimately show ?thesis
    using absent_elements_are_values
            [of "Elem ''a:prstGeom'' [(''prst'', ''rect'')] []"
                "Elem ''p:spPr'' [] [Elem ''a:xfrm'' [] [], Elem ''a:ln'' [] []]"
                "ph_sp_tmpl 2 ''Title 1''"]
    by simp
qed

section \<open>Properties of the placeholder lookup\<close>

lemma find_first:
  "List.find P xs = Some x \<Longrightarrow>
     \<exists>pre post. xs = pre @ x # post \<and> P x \<and> (\<forall>q \<in> set pre. \<not> P q)"
proof (induction xs)
  case Nil
  then show ?case by simp
next
  case (Cons a xs)
  show ?case
  proof (cases "P a")
    case True
    with Cons.prems have "a # xs = [] @ x # xs \<and> P x \<and> (\<forall>q \<in> set []. \<not> P q)" by simp
    then show ?thesis by blast
  next
    case False
    with Cons obtain pre post where "xs = pre @ x # post" "P x" "\<forall>q \<in> set pre. \<not> P q"
      by auto
    with False have "a # xs = (a # pre) @ x # post \<and> P x \<and> (\<forall>q \<in> set (a # pre). \<not> P q)"
      by simp
    then show ?thesis by blast
  qed
qed

lemma find_none: "List.find P xs = None \<Longrightarrow> \<forall>q \<in> set xs. \<not> P q"
  by (simp add: find_None_iff)

text \<open>
  C9. \<^verbatim>\<open>get(index, default)\<close> returns the first placeholder, in the order of
  \<^verbatim>\<open>all()\<close>, whose resolved index (zero when the index attribute is absent) is the
  requested one: no placeholder before it has that index, so the first match wins among
  duplicates. When no placeholder has the requested index it returns the default.
\<close>

theorem get_first_match_or_default:
  "(case ph_get shape_tree index dflt of
      Found p \<Rightarrow>
        \<exists>pre post. ph_all shape_tree = pre @ p # post \<and> resolved_idx p = index
           \<and> (\<forall>q \<in> set pre. resolved_idx q \<noteq> index)
    | Default d \<Rightarrow> d = dflt \<and> (\<forall>q \<in> set (ph_all shape_tree). resolved_idx q \<noteq> index))"
proof (cases "List.find (\<lambda>p. resolved_idx p = index) (ph_all shape_tree)")
  case None
  from find_none [OF None] None show ?thesis
    by (simp add: ph_get_def)
next
  case (Some p)
  from find_first [OF Some] Some show ?thesis
    by (simp add: ph_get_def)
qed

theorem get_first_match_or_default_witness:
  "ph_get
     [\<lparr>shape_name = ''Title 1'', descriptor = Some \<lparr>type_attr = Some ''title'', idx_attr = None\<rparr>\<rparr>,
      \<lparr>shape_name = ''Logo'', descriptor = None\<rparr>,
      \<lparr>shape_name = ''Body 2'', descriptor = Some \<lparr>type_attr = Some ''body'', idx_attr = Some 1\<rparr>\<rparr>,
      \<lparr>shape_name = ''Body 3'', descriptor = Some \<lparr>type_attr = Some ''body'', idx_attr = Some 1\<rparr>\<rparr>]
     7 ''none-found'' = Default ''none-found''
   \<and> ph_get
     [\<lparr>shape_name = ''Title 1'', descriptor = Some \<lparr>type_attr = Some ''title'', idx_attr = None\<rparr>\<rparr>,
      \<lparr>shape_name = ''Logo'', descriptor = None\<rparr>,
      \<lparr>shape_name = ''Body 2'', descriptor = Some \<lparr>type_attr = Some ''body'', idx_attr = Some 1\<rparr>\<rparr>,
      \<lparr>shape_name = ''Body 3'', descriptor = Some \<lparr>type_attr = Some ''body'', idx_attr = Some 1\<rparr>\<rparr>]
     1 ''none-found''
     = Found \<lparr>shape_name = ''Body 2'', descriptor = Some \<lparr>type_attr = Some ''body'', idx_attr = Some 1\<rparr>\<rparr>
   \<and> ph_get
     [\<lparr>shape_name = ''Title 1'', descriptor = Some \<lparr>type_attr = Some ''title'', idx_attr = None\<rparr>\<rparr>,
      \<lparr>shape_name = ''Logo'', descriptor = None\<rparr>,
      \<lparr>shape_name = ''Body 2'', descriptor = Some \<lparr>type_attr = Some ''body'', idx_attr = Some 1\<rparr>\<rparr>,
      \<lparr>shape_name = ''Body 3'', descriptor = Some \<lparr>type_attr = Some ''body'', idx_attr = Some 1\<rparr>\<rparr>]
     0 ''none-found''
     = Found \<lparr>shape_name = ''Title 1'', descriptor = Some \<lparr>type_attr = Some ''title'', idx_attr = None\<rparr>\<rparr>"
  using get_first_match_or_default
          [of "[\<lparr>shape_name = ''Title 1'', descriptor = Some \<lparr>type_attr = Some ''title'', idx_attr = None\<rparr>\<rparr>,
      \<lparr>shape_name = ''Logo'', descriptor = None\<rparr>,
      \<lparr>shape_name = ''Body 2'', descriptor = Some \<lparr>type_attr = Some ''body'', idx_attr = Some 1\<rparr>\<rparr>,
      \<lparr>shape_name = ''Body 3'', descriptor = Some \<lparr>type_attr = Some ''body'', idx_attr = Some 1\<rparr>\<rparr>]"
              7 "''none-found''"]
  by (simp add: ph_get_def ph_all_def resolved_idx_def)

end
